theory Spec2Isabelle
  imports Complex_Main "HOL-Library.Multiset" "HOL-Library.Log_Nat"
begin

section \<open>Data model\<close>

text \<open>
  The program is the browser front end of a document summarizer: \<^verbatim>\<open>script.js\<close> and
  \<^verbatim>\<open>file-handler.js\<close>.  Both keep their state in the DOM and in two \<^verbatim>\<open>WeakMap\<close>
  registries.  The embedding passes that state explicitly, as the record \<open>page\<close>.

  A file item is a clone of the \<^verbatim>\<open>.file-item.template\<close> element.  Only its identity matters,
  so it is a number.  The page's markup is not part of the sources; the model takes the
  elements that the handlers look up by id or class (\<^verbatim>\<open>errorContainer\<close>, \<^verbatim>\<open>dropZone\<close>,
  \<^verbatim>\<open>.processing-options\<close>, and \<^verbatim>\<open>.file-status\<close>, \<^verbatim>\<open>.progress-fill\<close> and \<^verbatim>\<open>.file-select\<close>
  inside every file item) to exist, so that a lookup never yields \<^verbatim>\<open>null\<close>.
\<close>

type_synonym item = nat

text \<open>The fields of a \<^verbatim>\<open>File\<close> object that the code reads.\<close>

record File =
  file_name :: string
  file_size :: nat
  file_type :: string

text \<open>The containers that \<^verbatim>\<open>showError\<close> is called with.\<close>

datatype container = ErrorContainer | ProcessingOptions | OutputHeader

text \<open>
  Instrumentation of the remote calls: \<open>Fetch i\<close> is logged when \<^verbatim>\<open>fetch\<close> is called with
  the file of item \<open>i\<close>, and \<open>Settle i\<close> when the promise of item \<open>i\<close>'s callback settles.
\<close>

datatype event = Fetch item | Settle item

record page =
  shown :: "container \<Rightarrow> string option"
    \<comment> \<open>the \<^verbatim>\<open>.error-message\<close> element inside each container, if any\<close>
  fileList :: "item list"
    \<comment> \<open>\<^verbatim>\<open>.file-item:not(.template)\<close> in document order\<close>
  checked :: "item \<Rightarrow> bool"
    \<comment> \<open>the \<^verbatim>\<open>.file-select\<close> checkbox of an item\<close>
  status :: "item \<Rightarrow> string"
    \<comment> \<open>\<^verbatim>\<open>textContent\<close> of the item's \<^verbatim>\<open>.file-status\<close>\<close>
  progress :: "item \<Rightarrow> nat"
    \<comment> \<open>width of the item's \<^verbatim>\<open>.progress-fill\<close>, in percent\<close>
  fileMap :: "item \<rightharpoonup> File"
    \<comment> \<open>the \<^verbatim>\<open>fileMap\<close> of \<^verbatim>\<open>initializeApp\<close> in script.js\<close>
  fh_fileMap :: "item \<rightharpoonup> File"
    \<comment> \<open>\<^verbatim>\<open>fileHandler.fileMap\<close> in file-handler.js\<close>
  fh_exposed :: bool
    \<comment> \<open>whether \<^verbatim>\<open>window.__fileMap\<close> has been set; it is then the same object as
        \<^verbatim>\<open>fileHandler.fileMap\<close>\<close>
  activeTab :: string
    \<comment> \<open>\<^verbatim>\<open>dataset.tab\<close> of the active tab button\<close>
  targetLanguage :: string
  inputText :: string
  processInBatch :: bool
  processBtn_disabled :: bool
  summarizeBtn_disabled :: bool
  loading_hidden :: bool
  outputText :: string
    \<comment> \<open>\<^verbatim>\<open>innerHTML\<close> of the output element\<close>
  calls :: "event list"

section \<open>Notifications\<close>

text \<open>
  \<^verbatim>\<open>showError(message, container)\<close> removes the message the container already shows and
  inserts the new one.  (The timers that fade the message out after five seconds are not
  modelled.)  Every call in the sources passes a string, so the conversion of other
  arguments at the head of the function is left out.
\<close>

definition showError :: "string \<Rightarrow> container \<Rightarrow> 'a page_scheme \<Rightarrow> 'a page_scheme" where
  "showError message c p = p\<lparr>shown := (shown p)(c \<mapsto> message)\<rparr>"

section \<open>Validation\<close>

subsection \<open>script.js\<close>

definition maxFileSize :: nat where
  "maxFileSize = 10 * 1024 * 1024"

text \<open>The own keys of the object literal \<^verbatim>\<open>acceptedTypes\<close>; every value is \<^verbatim>\<open>true\<close>.\<close>

definition acceptedTypes :: "string list" where
  "acceptedTypes =
    [''text/plain'',
     ''application/pdf'',
     ''application/msword'',
     ''application/vnd.openxmlformats-officedocument.wordprocessingml.document'',
     ''image/jpeg'',
     ''image/png'',
     ''image/gif'',
     ''image/bmp'',
     ''image/tiff'']"

text \<open>
  \<^verbatim>\<open>acceptedTypes[file.type]\<close> is a property read on a plain object: a key that the object
  does not own is looked up on \<^verbatim>\<open>Object.prototype\<close>, whose properties are all truthy.
\<close>

definition Object_prototype_keys :: "string list" where
  "Object_prototype_keys =
    [''constructor'', ''__proto__'', ''hasOwnProperty'', ''isPrototypeOf'',
     ''propertyIsEnumerable'', ''toLocaleString'', ''toString'', ''valueOf'',
     ''__defineGetter__'', ''__defineSetter__'', ''__lookupGetter__'', ''__lookupSetter__'']"

definition truthy_property :: "string list \<Rightarrow> string \<Rightarrow> bool" where
  "truthy_property own k \<longleftrightarrow> k \<in> set own \<or> k \<in> set Object_prototype_keys"

definition validateFile :: "File \<Rightarrow> page \<Rightarrow> bool \<times> page" where
  "validateFile f p =
    (if file_size f > maxFileSize then
       (False, showError ''File size must be less than 10MB'' ErrorContainer p)
     else if \<not> truthy_property acceptedTypes (file_type f) then
       (False, showError ''File type not supported'' ErrorContainer p)
     else (True, p))"

text \<open>
  \<^verbatim>\<open>updateFileStatus(fileItem, status, progress = null)\<close>: the progress bar is left alone
  when no progress is given.
\<close>

definition updateFileStatus ::
  "item \<Rightarrow> string \<Rightarrow> nat option \<Rightarrow> 'a page_scheme \<Rightarrow> 'a page_scheme" where
  "updateFileStatus fileItem st pr p =
    (let p' = p\<lparr>status := (status p)(fileItem := st)\<rparr>
     in case pr of
          None \<Rightarrow> p'
        | Some n \<Rightarrow> p'\<lparr>progress := (progress p')(fileItem := n)\<rparr>)"

text \<open>
  The body of the \<^verbatim>\<open>forEach\<close> callback of \<^verbatim>\<open>handleFiles\<close> in script.js.  \<open>fileItem\<close> is the
  element that \<^verbatim>\<open>template.cloneNode(true)\<close> creates.
\<close>

definition handleFiles_each :: "item \<Rightarrow> File \<Rightarrow> page \<Rightarrow> page" where
  "handleFiles_each fileItem f p =
    (case validateFile f p of
       (False, p') \<Rightarrow> p'
     | (True, p') \<Rightarrow>
         (let p1 = p'\<lparr>fileMap := (fileMap p')(fileItem \<mapsto> f)\<rparr>;
              p2 = updateFileStatus fileItem ''Ready to process'' (Some 0) p1;
              p3 = p2\<lparr>fileList := fileList p2 @ [fileItem]\<rparr>
          in p3\<lparr>checked := (checked p3)(fileItem := True)\<rparr>))"

subsection \<open>file-handler.js\<close>

definition MAX_FILE_SIZE :: nat where
  "MAX_FILE_SIZE = 10 * 1024 * 1024"

definition SUPPORTED_TYPES :: "string list" where
  "SUPPORTED_TYPES =
    [''text/plain'',
     ''application/pdf'',
     ''application/msword'',
     ''application/vnd.openxmlformats-officedocument.wordprocessingml.document'',
     ''image/jpeg'',
     ''image/png'',
     ''image/gif'',
     ''image/bmp'',
     ''image/tiff'']"

text \<open>\<^verbatim>\<open>fileHandler.showError\<close> always writes to \<^verbatim>\<open>errorContainer\<close>.\<close>

definition fh_showError :: "string \<Rightarrow> page \<Rightarrow> page" where
  "fh_showError message p = p\<lparr>shown := (shown p)(ErrorContainer \<mapsto> message)\<rparr>"

text \<open>
  \<^verbatim>\<open>displayFileInfo\<close> registers the file under the new element, exposes the registry as
  \<^verbatim>\<open>window.__fileMap\<close>, ticks the checkbox and appends the element to the list.
\<close>

definition displayFileInfo :: "item \<Rightarrow> File \<Rightarrow> page \<Rightarrow> page" where
  "displayFileInfo fileItem f p =
    p\<lparr>fh_fileMap := (fh_fileMap p)(fileItem \<mapsto> f),
      fh_exposed := True,
      checked := (checked p)(fileItem := True),
      fileList := fileList p @ [fileItem]\<rparr>"

text \<open>
  The body of the \<^verbatim>\<open>forEach\<close> callback of \<^verbatim>\<open>fileHandler.handleFiles\<close>.  The result says
  whether the file was accepted.  \<^verbatim>\<open>formatFileSize(this.MAX_FILE_SIZE)\<close> is the constant
  \<^verbatim>\<open>10 MB\<close>.
\<close>

definition fh_handleFiles_each :: "item \<Rightarrow> File \<Rightarrow> page \<Rightarrow> bool \<times> page" where
  "fh_handleFiles_each fileItem f p =
    (if file_size f > MAX_FILE_SIZE then
       (False, fh_showError
          (''File '' @ file_name f @ '' is too large. Maximum size is 10 MB'') p)
     else if \<not> truthy_property SUPPORTED_TYPES (file_type f) then
       (False, fh_showError
          (''File type '' @ file_type f @ '' is not supported for '' @ file_name f) p)
     else (True, displayFileInfo fileItem f p))"

text \<open>
  The browser reports the type of a selected or dropped file as a media type
  \<^verbatim>\<open>type/subtype\<close>, or as the empty string when it does not know the type.
\<close>

definition media_type :: "string \<Rightarrow> bool" where
  "media_type t \<longleftrightarrow> t = [] \<or> CHR ''/'' \<in> set t"

section \<open>Registries\<close>

text \<open>\<^verbatim>\<open>window.__fileMap\<close>: undefined until \<^verbatim>\<open>displayFileInfo\<close> has run once.\<close>

definition window_fileMap :: "'a page_scheme \<Rightarrow> (item \<rightharpoonup> File) option" where
  "window_fileMap p = (if fh_exposed p then Some (fh_fileMap p) else None)"

text \<open>A \<^verbatim>\<open>File\<close> is an object, so \<^verbatim>\<open>if (f)\<close> tests that the lookup found one.\<close>

definition getFileFromItem :: "item \<Rightarrow> 'a page_scheme \<Rightarrow> File option" where
  "getFileFromItem fileItem p =
    (case fileMap p fileItem of
       Some f \<Rightarrow> Some f
     | None \<Rightarrow>
         (case window_fileMap p of
            None \<Rightarrow> None
          | Some m \<Rightarrow> m fileItem))"

text \<open>
  The timer callbacks of the two remove buttons (script.js lines 297-300, file-handler.js
  lines 102-105): the element leaves the list, and the registry of the script that created
  it drops it.
\<close>

datatype ui_event = Remove item | Fh_remove item

fun apply_ui_event :: "ui_event \<Rightarrow> 'a page_scheme \<Rightarrow> 'a page_scheme" where
  "apply_ui_event (Remove x) p =
     p\<lparr>fileList := removeAll x (fileList p), fileMap := (fileMap p)(x := None)\<rparr>"
| "apply_ui_event (Fh_remove x) p =
     p\<lparr>fileList := removeAll x (fileList p), fh_fileMap := (fh_fileMap p)(x := None)\<rparr>"

definition ui_events :: "ui_event list \<Rightarrow> 'a page_scheme \<Rightarrow> 'a page_scheme" where
  "ui_events es p = fold apply_ui_event es p"

section \<open>The remote service\<close>

text \<open>
  A JavaScript \<^verbatim>\<open>Error\<close> is its message.  A string is a list of UTF-16 code units below
  256.
\<close>

datatype error = Error string

text \<open>
  The \<^verbatim>\<open>detail\<close> of an error body is absent, a string, or an array of objects with
  a \<^verbatim>\<open>msg\<close>; \<open>DetailArr\<close> lists the \<^verbatim>\<open>msg\<close> fields.
\<close>

datatype detail = NoDetail | DetailStr string | DetailArr "string list"

record json =
  detail :: detail
  filename :: "string option"
  summary :: "string option"

text \<open>\<^verbatim>\<open>response.json()\<close> rejects with an error, or resolves with an object.\<close>

datatype body = Unparsable string | Json json

text \<open>
  \<^verbatim>\<open>fetch\<close> rejects with an error, or resolves with a response that has a status and
  a body.
\<close>

datatype fetch_result = Failed_to_fetch string | Response nat body

definition ok :: "nat \<Rightarrow> bool" where
  "ok st \<longleftrightarrow> 200 \<le> st \<and> st \<le> 299"

text \<open>
  What the handlers cannot control: the answer of the service to the upload of each item,
  the time that answer takes, the timer callbacks of the remove buttons that run while the
  handler is suspended in the loop iteration that starts at a given index, and the answer
  to the text request.
\<close>

record env =
  response :: "item \<Rightarrow> fetch_result"
  latency :: "item \<Rightarrow> nat"
  during :: "nat \<Rightarrow> ui_event list"
  text_response :: fetch_result

subsection \<open>Strings\<close>

fun join :: "string \<Rightarrow> string list \<Rightarrow> string" where
  "join sep [] = []"
| "join sep [x] = x"
| "join sep (x # y # ys) = x @ sep @ join sep (y # ys)"

function string_of_nat :: "nat \<Rightarrow> string" where
  "string_of_nat n =
    (if n < 10 then [char_of (48 + n)]
     else string_of_nat (n div 10) @ [char_of (48 + n mod 10)])"
  by pat_completeness auto
termination
  by (relation "measure id") auto

declare string_of_nat.simps [simp del]

text \<open>An absent property in a template literal.\<close>

definition js_str :: "string option \<Rightarrow> string" where
  "js_str v = (case v of None \<Rightarrow> ''undefined'' | Some s \<Rightarrow> s)"

definition white_space :: "char \<Rightarrow> bool" where
  "white_space c \<longleftrightarrow>
    c \<in> set [CHR 0x09, CHR 0x0A, CHR 0x0B, CHR 0x0C, CHR 0x0D, CHR 0x20, CHR 0xA0]"

definition trim :: "string \<Rightarrow> string" where
  "trim s = rev (dropWhile white_space (rev (dropWhile white_space s)))"

text \<open>\<^verbatim>\<open>data.detail || fallback\<close>, as the message of \<^verbatim>\<open>new Error(...)\<close>.\<close>

definition detail_or :: "detail \<Rightarrow> string \<Rightarrow> string" where
  "detail_or d fallback =
    (case d of
       NoDetail \<Rightarrow> fallback
     | DetailStr s \<Rightarrow> (if s = [] then fallback else s)
     | DetailArr ms \<Rightarrow> join '','' (map (\<lambda>_. ''[object Object]'') ms))"

subsection \<open>uploadFile\<close>

text \<open>
  An \<^verbatim>\<open>async\<close> function is split where it awaits the service: the first half runs when
  the function is called, and ends with the call of \<^verbatim>\<open>fetch\<close>; the second half runs when
  the answer is there.
\<close>

definition fetch :: "item \<Rightarrow> File \<Rightarrow> 'a page_scheme \<Rightarrow> 'a page_scheme" where
  "fetch fileItem f p = p\<lparr>calls := calls p @ [Fetch fileItem]\<rparr>"

definition uploadFile_start :: "item \<Rightarrow> File \<Rightarrow> 'a page_scheme \<Rightarrow> 'a page_scheme" where
  "uploadFile_start fileItem f p =
    fetch fileItem f (updateFileStatus fileItem ''Uploading...'' (Some 30) p)"

text \<open>Lines 222-230: what the \<^verbatim>\<open>try\<close> block makes of the answer.\<close>

definition upload_data :: "fetch_result \<Rightarrow> error + json" where
  "upload_data r =
    (case r of
       Failed_to_fetch m \<Rightarrow> Inl (Error m)
     | Response st (Unparsable m) \<Rightarrow> Inl (Error m)
     | Response st (Json d) \<Rightarrow>
         (if \<not> ok st then Inl (Error (detail_or (detail d) ''Upload failed''))
          else Inr d))"

definition uploadFile_resume ::
  "item \<Rightarrow> fetch_result \<Rightarrow> 'a page_scheme \<Rightarrow> (error + json) \<times> 'a page_scheme" where
  "uploadFile_resume fileItem r p =
    (case upload_data r of
       Inr d \<Rightarrow> (Inr d, updateFileStatus fileItem ''Completed'' (Some 100) p)
     | Inl (Error m) \<Rightarrow>
         (Inl (Error m), updateFileStatus fileItem (''Error: '' @ m) (Some 0) p))"

subsection \<open>processFile\<close>

definition handleApiResponse :: "nat \<Rightarrow> body \<Rightarrow> error + json" where
  "handleApiResponse st b =
    (if \<not> ok st then
       (let d = (case b of Unparsable _ \<Rightarrow> NoDetail | Json e \<Rightarrow> detail e)
        in Inl (Error (detail_or d (''API Error: '' @ string_of_nat st))))
     else
       (case b of
          Unparsable m \<Rightarrow> Inl (Error m)
        | Json d \<Rightarrow> Inr d))"

text \<open>Every caller passes a file, so the test \<^verbatim>\<open>if (!file)\<close> never fires.\<close>

definition processFile_start :: "item \<Rightarrow> File \<Rightarrow> 'a page_scheme \<Rightarrow> 'a page_scheme" where
  "processFile_start fileItem f p =
    fetch fileItem f (updateFileStatus fileItem ''Processing...'' (Some 50) p)"

definition process_data :: "fetch_result \<Rightarrow> error + json" where
  "process_data r =
    (case r of
       Failed_to_fetch m \<Rightarrow> Inl (Error m)
     | Response st b \<Rightarrow> handleApiResponse st b)"

definition processFile_resume ::
  "item \<Rightarrow> fetch_result \<Rightarrow> 'a page_scheme \<Rightarrow> (error + json) \<times> 'a page_scheme" where
  "processFile_resume fileItem r p =
    (case process_data r of
       Inr d \<Rightarrow> (Inr d, updateFileStatus fileItem ''Completed'' (Some 100) p)
     | Inl (Error m) \<Rightarrow>
         (Inl (Error m), updateFileStatus fileItem (''Error: '' @ m) (Some 0) p))"

section \<open>Groups of concurrent uploads\<close>

text \<open>
  Both handlers map an \<^verbatim>\<open>async\<close> callback over a group of items and await the promises
  together.  \<^verbatim>\<open>map\<close> runs the first half of every callback, in the order of the group,
  before the handler is suspended: \<open>start\<close> returns \<open>Some r\<close> when the callback has
  settled with \<open>r\<close> without awaiting, and \<open>None\<close> when it awaits the service.  While the
  handler is suspended the timer callbacks \<open>es\<close> run.  The second halves run in the order
  in which the answers arrive, the earliest first, and fill the slots of the results, which
  are in the order of the group.  The handler goes on when every slot is filled.
\<close>

definition settle :: "item \<Rightarrow> 'a page_scheme \<Rightarrow> 'a page_scheme" where
  "settle x p = p\<lparr>calls := calls p @ [Settle x]\<rparr>"

fun start_all ::
  "(item \<Rightarrow> 'a page_scheme \<Rightarrow> 'r option \<times> 'a page_scheme) \<Rightarrow> item list \<Rightarrow> 'a page_scheme
    \<Rightarrow> 'r option list \<times> 'a page_scheme" where
  "start_all start [] p = ([], p)"
| "start_all start (x # xs) p =
    (case start x p of
       (r, p1) \<Rightarrow>
         (case start_all start xs (case r of None \<Rightarrow> p1 | Some _ \<Rightarrow> settle x p1) of
            (rs, p2) \<Rightarrow> (r # rs, p2)))"

definition pending :: "item list \<Rightarrow> 'r option list \<Rightarrow> (nat \<times> item) list" where
  "pending batch outs =
    map fst (filter (\<lambda>(_, r). Option.is_none r) (zip (enumerate 0 batch) outs))"

definition completion_order :: "env \<Rightarrow> (nat \<times> item) list \<Rightarrow> (nat \<times> item) list" where
  "completion_order env ps = sort_key (\<lambda>(k, x). latency env x) ps"

fun resume_all ::
  "(item \<Rightarrow> fetch_result \<Rightarrow> 'a page_scheme \<Rightarrow> 'r \<times> 'a page_scheme) \<Rightarrow> env
    \<Rightarrow> (nat \<times> item) list \<Rightarrow> 'r option list \<Rightarrow> 'a page_scheme
    \<Rightarrow> 'r option list \<times> 'a page_scheme" where
  "resume_all resume env [] slots p = (slots, p)"
| "resume_all resume env ((k, x) # ks) slots p =
    (case resume x (response env x) p of
       (r, p1) \<Rightarrow> resume_all resume env ks (slots[k := Some r]) (settle x p1))"

definition run_group ::
  "(item \<Rightarrow> 'a page_scheme \<Rightarrow> 'r option \<times> 'a page_scheme)
    \<Rightarrow> (item \<Rightarrow> fetch_result \<Rightarrow> 'a page_scheme \<Rightarrow> 'r \<times> 'a page_scheme)
    \<Rightarrow> env \<Rightarrow> ui_event list \<Rightarrow> item list \<Rightarrow> 'a page_scheme
    \<Rightarrow> 'r list \<times> 'a page_scheme" where
  "run_group start resume env es batch p =
    (case start_all start batch p of
       (outs, p1) \<Rightarrow>
         (case resume_all resume env (completion_order env (pending batch outs)) outs
                 (ui_events es p1) of
            (slots, p2) \<Rightarrow> (List.map_filter (\<lambda>r. r) slots, p2)))"

definition maxConcurrent :: nat where
  "maxConcurrent = 3"

section \<open>The process button\<close>

text \<open>The handler's local variable \<^verbatim>\<open>successCount\<close> travels with the page.\<close>

record process_run = page +
  successCount :: nat

definition selectedItems :: "page \<Rightarrow> item list" where
  "selectedItems p =
    filter (\<lambda>item. checked p item \<and> status p item \<noteq> ''Completed'') (fileList p)"

text \<open>The \<^verbatim>\<open>catch\<close> block of the callback, lines 346-349.\<close>

definition process_catch :: "item \<Rightarrow> error \<Rightarrow> 'a page_scheme \<Rightarrow> 'a page_scheme" where
  "process_catch item e p =
    (case e of Error m \<Rightarrow> updateFileStatus item (''Error: '' @ m) (Some 0) p)"

text \<open>
  The callback, lines 338-350.  Its \<^verbatim>\<open>try\<close> block throws when the lookup misses, and
  when \<^verbatim>\<open>uploadFile\<close> throws; the \<^verbatim>\<open>catch\<close> block turns both into a fulfilled promise.
\<close>

definition process_start ::
  "item \<Rightarrow> process_run \<Rightarrow> (error + unit) option \<times> process_run" where
  "process_start item p =
    (case getFileFromItem item p of
       None \<Rightarrow> (Some (Inr ()), process_catch item (Error ''File not found'') p)
     | Some f \<Rightarrow> (None, uploadFile_start item f p))"

definition process_resume ::
  "item \<Rightarrow> fetch_result \<Rightarrow> process_run \<Rightarrow> (error + unit) \<times> process_run" where
  "process_resume item r p =
    (case uploadFile_resume item r p of
       (Inl e, p1) \<Rightarrow> (Inr (), process_catch item e p1)
     | (Inr d, p1) \<Rightarrow> (Inr (), p1\<lparr>successCount := successCount p1 + 1\<rparr>))"

text \<open>\<^verbatim>\<open>Promise.all\<close> rejects when one of the promises rejects.\<close>

fun promise_all :: "(error + 'r) list \<Rightarrow> error + 'r list" where
  "promise_all [] = Inr []"
| "promise_all (Inl e # rs) = Inl e"
| "promise_all (Inr v # rs) =
    (case promise_all rs of Inl e \<Rightarrow> Inl e | Inr vs \<Rightarrow> Inr (v # vs))"

text \<open>
  The loop of lines 336-351; \<open>i div 3\<close> is the number of the group.  The result is \<open>Inl\<close>
  when the \<^verbatim>\<open>await\<close> throws.
\<close>

function process_loop ::
  "env \<Rightarrow> item list \<Rightarrow> nat \<Rightarrow> process_run \<Rightarrow> (error + unit) \<times> process_run" where
  "process_loop env selected i p =
    (if i < length selected then
       (case run_group process_start process_resume env (during env (i div 3))
               (take 3 (drop i selected)) p of
          (rs, p1) \<Rightarrow>
            (case promise_all rs of
               Inl e \<Rightarrow> (Inl e, p1)
             | Inr _ \<Rightarrow> process_loop env selected (i + 3) p1))
     else (Inr (), p))"
  by pat_completeness auto
termination
  by (relation "measure (\<lambda>(env, selected, i, p). length selected - i)") auto

declare process_loop.simps [simp del]

text \<open>The \<^verbatim>\<open>try\<close> block, lines 334-355.\<close>

definition processBtn_try ::
  "env \<Rightarrow> item list \<Rightarrow> process_run \<Rightarrow> (error + unit) \<times> process_run" where
  "processBtn_try env selected p =
    (case process_loop env selected 0 p of
       (Inl e, p1) \<Rightarrow> (Inl e, p1)
     | (Inr _, p1) \<Rightarrow>
         (Inr (),
          if successCount p1 > 0 then
            showError (''Successfully processed '' @ string_of_nat (successCount p1)
                        @ '' file(s)'') ProcessingOptions p1
          else p1))"

text \<open>The \<^verbatim>\<open>catch\<close> and \<^verbatim>\<open>finally\<close> blocks, lines 356-361.\<close>

definition processBtn_finish :: "(error + unit) \<times> process_run \<Rightarrow> page" where
  "processBtn_finish rp =
    (case rp of
       (r, p1) \<Rightarrow>
         (let p2 = (case r of
                      Inl e \<Rightarrow>
                        showError
                          ''Error during batch processing. Some files may not have been processed.''
                          ErrorContainer p1
                    | Inr _ \<Rightarrow> p1)
          in page.truncate (p2\<lparr>processBtn_disabled := False\<rparr>)))"

definition processBtn_click :: "env \<Rightarrow> page \<Rightarrow> page" where
  "processBtn_click env p =
    (let selected = selectedItems p
     in if selected = [] then showError ''Please select files to process'' ErrorContainer p
        else processBtn_finish
               (processBtn_try env selected
                  (page.extend (p\<lparr>processBtn_disabled := True\<rparr>) (process_run.fields 0))))"

section \<open>The summarize button\<close>

subsection \<open>Files, in groups\<close>

text \<open>The callback of lines 590-598.  It rejects when the lookup misses.\<close>

definition batch_start :: "item \<Rightarrow> page \<Rightarrow> (error + json) option \<times> page" where
  "batch_start fileItem p =
    (case fileMap p fileItem of
       None \<Rightarrow>
         (Some (Inl (Error ''No file found'')),
          updateFileStatus fileItem ''Error: No file found'' (Some 0) p)
     | Some f \<Rightarrow> (None, processFile_start fileItem f p))"

text \<open>
  The loop of lines 588-602.  \<^verbatim>\<open>Promise.allSettled\<close> never rejects: a result is \<open>Inr\<close>
  when the promise is fulfilled and \<open>Inl\<close> when it is rejected.
\<close>

function batch_loop ::
  "env \<Rightarrow> item list \<Rightarrow> nat \<Rightarrow> (error + json) list \<Rightarrow> page \<Rightarrow> (error + json) list \<times> page"
  where
  "batch_loop env fileItems i results p =
    (if i < length fileItems then
       (case run_group batch_start processFile_resume env (during env (i div maxConcurrent))
               (take maxConcurrent (drop i fileItems)) p of
          (batchResults, p1) \<Rightarrow>
            batch_loop env fileItems (i + maxConcurrent) (results @ batchResults) p1)
     else (results, p))"
  by pat_completeness auto
termination
  by (relation "measure (\<lambda>(env, fileItems, i, results, p). length fileItems - i)")
     (auto simp: maxConcurrent_def)

declare batch_loop.simps [simp del]

fun successful :: "(error + 'r) list \<Rightarrow> 'r list" where
  "successful [] = []"
| "successful (Inl e # rs) = successful rs"
| "successful (Inr v # rs) = v # successful rs"

definition summary_item :: "string \<Rightarrow> string \<Rightarrow> string" where
  \<open>summary_item name text =
    ''<div class="summary-item">'' @ [CHR 0x0A] @ replicate 28 (CHR 0x20)
    @ ''<h3><i class="fas fa-file-alt"></i> '' @ name @ ''</h3>'' @ [CHR 0x0A]
    @ replicate 28 (CHR 0x20)
    @ ''<div class="summary-content">'' @ text @ ''</div>'' @ [CHR 0x0A]
    @ replicate 24 (CHR 0x20) @ ''</div>''\<close>

definition combinedSummary :: "(string \<times> string) list \<Rightarrow> string" where
  "combinedSummary blocks = join ''<hr>'' (map (\<lambda>(name, text). summary_item name text) blocks)"

text \<open>Lines 586-619.\<close>

definition summarize_batch :: "env \<Rightarrow> item list \<Rightarrow> page \<Rightarrow> (error + unit) \<times> page" where
  "summarize_batch env fileItems p =
    (case batch_loop env fileItems 0 [] p of
       (results, p1) \<Rightarrow>
         (let successfulResults = successful results
          in if length successfulResults = 0 then
               (Inl (Error ''No files were successfully processed''), p1)
             else
               (Inr (),
                p1\<lparr>outputText :=
                     combinedSummary
                       (map (\<lambda>result. (js_str (filename result), js_str (summary result)))
                          successfulResults)\<rparr>)))"

subsection \<open>Files, one by one\<close>

text \<open>
  The loop of lines 623-636; \<open>k\<close> is the position of the item.  The summaries are pairs of
  \<^verbatim>\<open>file.name\<close> and \<^verbatim>\<open>result.summary\<close>.
\<close>

fun sequential_loop ::
  "env \<Rightarrow> nat \<Rightarrow> item list \<Rightarrow> (string \<times> string option) list \<Rightarrow> page
    \<Rightarrow> (string \<times> string option) list \<times> page" where
  "sequential_loop env k [] summaries p = (summaries, p)"
| "sequential_loop env k (fileItem # rest) summaries p =
    (case getFileFromItem fileItem p of
       None \<Rightarrow>
         sequential_loop env (k + 1) rest summaries
           (updateFileStatus fileItem ''Error: No file found'' (Some 0) p)
     | Some f \<Rightarrow>
         (case processFile_resume fileItem (response env fileItem)
                 (ui_events (during env k) (processFile_start fileItem f p)) of
            (Inr result, p1) \<Rightarrow>
              sequential_loop env (k + 1) rest (summaries @ [(file_name f, summary result)])
                (settle fileItem p1)
          | (Inl e, p1) \<Rightarrow>
              sequential_loop env (k + 1) rest summaries (settle fileItem p1)))"

text \<open>Lines 621-648.\<close>

definition summarize_sequential :: "env \<Rightarrow> item list \<Rightarrow> page \<Rightarrow> (error + unit) \<times> page" where
  "summarize_sequential env fileItems p =
    (case sequential_loop env 0 fileItems [] p of
       (summaries, p1) \<Rightarrow>
         (if length summaries = 0 then
            (Inl (Error ''No files were successfully processed''), p1)
          else
            (Inr (),
             p1\<lparr>outputText :=
                  combinedSummary (map (\<lambda>(name, text). (name, js_str text)) summaries)\<rparr>)))"

subsection \<open>Text\<close>

definition validateInput :: "string \<Rightarrow> error + string" where
  "validateInput text =
    (if text = [] then Inl (Error ''No text provided for summarization'')
     else
       (let trimmedText = trim text
        in if length trimmedText = 0 then
             Inl (Error ''Please enter some text to summarize'')
           else if length trimmedText < 50 then
             Inl (Error ''Text is too short. Please enter at least 50 characters'')
           else if length trimmedText > 50000 then
             Inl (Error ''Text is too long. Please enter less than 50,000 characters'')
           else Inr trimmedText))"

text \<open>Lines 548-558: the message for an answer that is not ok.\<close>

definition errorMessage :: "nat \<Rightarrow> json \<Rightarrow> string" where
  "errorMessage st data =
    (if st = 422 then
       (case detail data of
          NoDetail \<Rightarrow> ''Invalid input data. Please check your input and try again.''
        | DetailStr s \<Rightarrow>
            (if s = [] then ''Invalid input data. Please check your input and try again.''
             else s)
        | DetailArr ms \<Rightarrow> join '', '' ms)
     else detail_or (detail data) (''Server error! Status: '' @ string_of_nat st))"

text \<open>
  Lines 522-573.  The statistics that \<^verbatim>\<open>updateStats\<close> animates are not part of the page
  record; \<^verbatim>\<open>updateStats\<close> is modelled on its own below.
\<close>

definition summarize_text :: "env \<Rightarrow> page \<Rightarrow> (error + unit) \<times> page" where
  \<open>summarize_text env p =
    (case validateInput (inputText p) of
       Inl e \<Rightarrow> (Inl e, p)
     | Inr text \<Rightarrow>
         (if text = [] \<or> length (trim text) = 0 then
            (Inl (Error ''Please enter valid text to summarize''), p)
          else
            (case text_response env of
               Failed_to_fetch m \<Rightarrow> (Inl (Error m), p)
             | Response st (Unparsable m) \<Rightarrow> (Inl (Error m), p)
             | Response st (Json data) \<Rightarrow>
                 (if \<not> ok st then (Inl (Error (errorMessage st data)), p)
                  else
                    (case summary data of
                       None \<Rightarrow>
                         (Inl (Error ''No summary was generated. Please try again.''), p)
                     | Some s \<Rightarrow>
                         (if s = [] then
                            (Inl (Error ''No summary was generated. Please try again.''), p)
                          else
                            (Inr (),
                             p\<lparr>outputText :=
                                  ''<div class="summary-content">'' @ s @ ''</div>''\<rparr>)))))))\<close>

subsection \<open>The handler\<close>

text \<open>
  The \<^verbatim>\<open>try\<close> block, lines 517-650.  The \<^verbatim>\<open>return\<close> of line 579 leaves it without
  an error.
\<close>

definition summarize_try :: "env \<Rightarrow> page \<Rightarrow> (error + unit) \<times> page" where
  "summarize_try env p =
    (let p0 = p\<lparr>loading_hidden := False, summarizeBtn_disabled := True, outputText := []\<rparr>
     in if activeTab p0 = ''text'' then summarize_text env p0
        else
          (let fileItems = fileList p0
           in if length fileItems = 0 then
                (Inr (),
                 showError ''Please upload at least one file to summarize'' ErrorContainer p0)
              else if processInBatch p0 then summarize_batch env fileItems p0
              else summarize_sequential env fileItems p0))"

text \<open>The \<^verbatim>\<open>catch\<close> and \<^verbatim>\<open>finally\<close> blocks, lines 651-662.\<close>

definition summarize_finish :: "(error + unit) \<times> page \<Rightarrow> page" where
  "summarize_finish rp =
    (case rp of
       (r, p1) \<Rightarrow>
         (let p2 = (case r of
                      Inl (Error m) \<Rightarrow>
                        showError
                          (if m \<noteq> [] then m
                           else ''An error occurred while processing your request'')
                          ErrorContainer p1
                    | Inr _ \<Rightarrow> p1)
          in p2\<lparr>loading_hidden := True, summarizeBtn_disabled := False\<rparr>))"

definition summarizeBtn_click :: "env \<Rightarrow> page \<Rightarrow> page" where
  "summarizeBtn_click env p =
    (if targetLanguage p = [] then
       showError ''Please select a target language'' ErrorContainer p
     else if activeTab p = ''text'' \<and> trim (inputText p) = [] then
       showError ''Please enter some text to summarize'' ErrorContainer p
     else summarize_finish (summarize_try env p))"

section \<open>Statistics\<close>

subsection \<open>Numbers\<close>

text \<open>
  A JavaScript number is an IEEE 754 binary64 value.  The finite ones are modelled by the
  rationals they stand for (the two zeros are one), and \<open>None\<close> stands for a result that
  is \<^verbatim>\<open>Infinity\<close>, \<^verbatim>\<open>-Infinity\<close> or \<^verbatim>\<open>NaN\<close>.
\<close>

definition pow2 :: "int \<Rightarrow> rat" where
  "pow2 e = (if 0 \<le> e then 2 ^ nat e else 1 / 2 ^ nat (- e))"

text \<open>For \<open>0 < x\<close>, the \<open>e\<close> with \<open>2\<^sup>e \<le> x < 2\<^sup>e\<^sup>+\<^sup>1\<close>.\<close>

definition exponent :: "rat \<Rightarrow> int" where
  "exponent x =
    (case quotient_of x of
       (a, b) \<Rightarrow> (let e = bitlen a - bitlen b in if x < pow2 e then e - 1 else e))"

definition round_half_even :: "rat \<Rightarrow> int" where
  "round_half_even y =
    (let f = \<lfloor>y\<rfloor>; r = y - of_int f
     in if r < 1 / 2 then f else if 1 / 2 < r then f + 1 else if even f then f else f + 1)"

text \<open>
  Rounding to the nearest binary64 value, ties to the even significand: 53 significant
  bits for a normal number, multiples of \<open>2\<^sup>-\<^sup>1\<^sup>0\<^sup>7\<^sup>4\<close> below \<open>2\<^sup>-\<^sup>1\<^sup>0\<^sup>2\<^sup>2\<close>.
\<close>

definition binary64 :: "rat \<Rightarrow> rat" where
  "binary64 x =
    (if x = 0 then 0
     else (let e = max (exponent \<bar>x\<bar>) (- 1022); ulp = pow2 (e - 52)
           in of_int (round_half_even (x / ulp)) * ulp))"

text \<open>The result of an arithmetic operation whose exact value is \<open>x\<close>: it overflows from \<open>2\<^sup>1\<^sup>0\<^sup>2\<^sup>4\<close> on.\<close>

definition double :: "rat \<Rightarrow> rat option" where
  "double x = (let y = binary64 x in if \<bar>y\<bar> < pow2 1024 then Some y else None)"

text \<open>\<^verbatim>\<open>Math.round\<close> of a finite number: the nearest integer, the larger one at a tie.\<close>

definition Math_round :: "rat \<Rightarrow> int" where
  "Math_round x = \<lfloor>x + 1 / 2\<rfloor>"

subsection \<open>animateNumber\<close>

text \<open>
  Line 476, the number that a frame shows: \<^verbatim>\<open>Math.round(from + diff * eased)\<close> with
  \<^verbatim>\<open>diff = to - from\<close> (line 471).  An addition, subtraction or multiplication with an
  operand that is not finite has a result that is not finite.
\<close>

definition animateNumber_current :: "rat \<Rightarrow> rat option \<Rightarrow> rat \<Rightarrow> int option" where
  "animateNumber_current from to eased =
    Option.bind to (\<lambda>to.
    Option.bind (double (to - from)) (\<lambda>diff.
    Option.bind (double (diff * eased)) (\<lambda>m.
    Option.bind (double (from + m)) (\<lambda>c. Some (Math_round c)))))"

text \<open>
  The animation ends with the frame that requests no other one, the frame in which
  \<^verbatim>\<open>t = Math.min(1, (now - start) / duration)\<close> is 1.  There \<^verbatim>\<open>1 - t\<close> is 0,
  \<^verbatim>\<open>Math.pow(0, 3)\<close> is 0 and \<^verbatim>\<open>eased = 1 - 0\<close> is 1.  What that frame shows stays
  in the element.
\<close>

definition animateNumber_last :: "rat \<Rightarrow> rat option \<Rightarrow> int option" where
  "animateNumber_last from to = animateNumber_current from to 1"

subsection \<open>updateStats\<close>

text \<open>\<^verbatim>\<open>s.split(/\s+/)\<close>: the pieces of \<open>s\<close> between the runs of white space.\<close>

function split_white_space :: "string \<Rightarrow> string list" where
  "split_white_space s =
    (let word = takeWhile (\<lambda>c. \<not> white_space c) s;
         rest = dropWhile (\<lambda>c. \<not> white_space c) s
     in if rest = [] then [word]
        else word # split_white_space (dropWhile white_space rest))"
  by pat_completeness auto
termination
proof (relation "measure length")
  show "wf (measure length)" by simp
next
  fix s :: string and word rest
  assume r: "rest = dropWhile (\<lambda>c. \<not> white_space c) s" "rest \<noteq> []"
  then have "white_space (hd rest)" using hd_dropWhile [of "\<lambda>c. \<not> white_space c" s] by simp
  then have "dropWhile white_space rest = dropWhile white_space (tl rest)"
    using r(2) by (cases rest) simp_all
  then have "length (dropWhile white_space rest) = length (dropWhile white_space (tl rest))"
    by (simp only:)
  also have "\<dots> \<le> length (tl rest)"
    by (rule length_dropWhile_le)
  also have "\<dots> < length rest" using r(2) by (cases rest) simp_all
  also have "\<dots> \<le> length s" unfolding r(1) by (rule length_dropWhile_le)
  finally show "(dropWhile white_space rest, s) \<in> measure length" by simp
qed

declare split_white_space.simps [simp del]

text \<open>An argument of \<^verbatim>\<open>updateStats\<close>: a finite number, or a string.\<close>

datatype length_arg = Number rat | Text string

text \<open>Lines 445-450: a string is replaced by the number of its words.\<close>

definition length_value :: "length_arg \<Rightarrow> rat" where
  "length_value a =
    (case a of
       Number n \<Rightarrow> n
     | Text t \<Rightarrow> of_nat (length (split_white_space (trim t))))"

text \<open>
  Line 462.  The quotient of two finite numbers, the second of them not 0, is rounded as
  every other result; the difference and the product are not finite when an operand
  is not.  Line 461 calls it for a positive \<^verbatim>\<open>originalLength\<close> only.
\<close>

definition ratio :: "rat \<Rightarrow> rat \<Rightarrow> int option" where
  "ratio originalLength summaryLength =
    (if originalLength = 0 then None
     else
       Option.bind (double (summaryLength / originalLength)) (\<lambda>q.
       Option.bind (double (1 - q)) (\<lambda>d.
       Option.bind (double (d * 100)) (\<lambda>p. Some (Math_round p)))))"

text \<open>What an element of the statistics shows when \<^verbatim>\<open>updateStats\<close> and its animations are over.\<close>

datatype display = Unchanged | Shows int | Shows_not_finite

definition shows_number :: "int option \<Rightarrow> display" where
  "shows_number v = (case v of None \<Rightarrow> Shows_not_finite | Some n \<Rightarrow> Shows n)"

text \<open>
  Lines 443-466.  \<open>wordCount\<close> and \<open>summaryRatio\<close> are \<open>None\<close> for an element that the page
  does not have, and otherwise hold the number that \<^verbatim>\<open>parseInt(...) || 0\<close> reads from
  the element (lines 455 and 463).  The result is what the two elements show after the
  last frames, the second one in front of a percent sign.
\<close>

definition updateStats ::
  "rat option \<Rightarrow> rat option \<Rightarrow> length_arg \<Rightarrow> length_arg \<Rightarrow> display \<times> display" where
  "updateStats wordCount summaryRatio originalLength summaryLength =
    (let originalLength = length_value originalLength;
         summaryLength = length_value summaryLength
     in ((case wordCount of
            None \<Rightarrow> Unchanged
          | Some start \<Rightarrow> shows_number (animateNumber_last start (Some originalLength))),
         (case summaryRatio of
            None \<Rightarrow> Unchanged
          | Some startR \<Rightarrow>
              if originalLength > 0 then
                shows_number
                  (animateNumber_last startR
                     (map_option of_int (ratio originalLength summaryLength)))
              else Unchanged)))"

section \<open>Calls in flight\<close>

text \<open>The items whose remote call has been made and whose promise has not settled.\<close>

fun flight :: "item list \<Rightarrow> event list \<Rightarrow> item list" where
  "flight fl [] = fl"
| "flight fl (Fetch x # es) = flight (x # fl) es"
| "flight fl (Settle x # es) = flight (remove1 x fl) es"

definition in_flight :: "event list \<Rightarrow> item list" where
  "in_flight es = flight [] es"

text \<open>
  The log that the specification asks for: group after group of \<open>n\<close> consecutive items;
  for a group, first one event for every item, in the order of the group (the call, or the
  settling of an item that is not uploaded), then the settling of the items that were
  called, in any order.
\<close>

function grouped :: "nat \<Rightarrow> item list \<Rightarrow> event list \<Rightarrow> bool" where
  "grouped n items tr =
    (if items = [] \<or> n = 0 then tr = []
     else
       (let g = take n items;
            starts = take (length g) tr;
            called = map fst (filter (\<lambda>(x, e). e = Fetch x) (zip g starts));
            settles = take (length called) (drop (length g) tr)
        in length starts = length g
           \<and> list_all2 (\<lambda>x e. e = Fetch x \<or> e = Settle x) g starts
           \<and> mset settles = mset (map Settle called)
           \<and> grouped n (drop n items) (drop (length g + length called) tr)))"
  by pat_completeness auto
termination
  by (relation "measure (\<lambda>(n, items, tr). length items)") auto

declare grouped.simps [simp del]

text \<open>
  The numbers of remote calls made in a row, between settlings; \<open>k\<close> counts the calls of
  the row being read.
\<close>

fun fetch_runs :: "nat \<Rightarrow> event list \<Rightarrow> nat list" where
  "fetch_runs k [] = (if k = 0 then [] else [k])"
| "fetch_runs k (Fetch x # es) = fetch_runs (Suc k) es"
| "fetch_runs k (Settle x # es) = (if k = 0 then fetch_runs 0 es else k # fetch_runs 0 es)"

text \<open>The sizes of the groups that \<^verbatim>\<open>slice(i, i + n)\<close> cuts from \<open>len\<close> items.\<close>

definition group_sizes :: "nat \<Rightarrow> nat \<Rightarrow> nat list" where
  "group_sizes n len = replicate (len div n) n @ (if len mod n = 0 then [] else [len mod n])"

section \<open>Auxiliary notions\<close>

text \<open>The events that the first halves of a group's callbacks log, given what they return.\<close>

definition start_events :: "item list \<Rightarrow> 'r option list \<Rightarrow> event list" where
  "start_events batch outs =
    map (\<lambda>(x, r). if Option.is_none r then Fetch x else Settle x) (zip batch outs)"

definition group_log :: "env \<Rightarrow> item list \<Rightarrow> 'r option list \<Rightarrow> event list" where
  "group_log env batch outs =
    start_events batch outs
    @ map (\<lambda>(k, x). Settle x) (completion_order env (pending batch outs))"

text \<open>The two registries, as far as a lookup can tell.\<close>

definition registry ::
  "'a page_scheme \<Rightarrow> (item \<rightharpoonup> File) \<times> (item \<rightharpoonup> File) \<times> bool" where
  "registry p = (fileMap p, fh_fileMap p, fh_exposed p)"

text \<open>The timer callbacks that have run when group \<open>g\<close> starts.\<close>

definition events_before :: "env \<Rightarrow> nat \<Rightarrow> ui_event list" where
  "events_before env g = concat (map (during env) [0..<g])"

text \<open>What the file list shows for an item.\<close>

definition view :: "'a page_scheme \<Rightarrow> item \<Rightarrow> string \<times> nat" where
  "view p y = (status p y, progress p y)"

text \<open>\<^verbatim>\<open>getFileFromItem\<close>, as a function of the registries alone.\<close>

definition registry_lookup ::
  "(item \<rightharpoonup> File) \<times> (item \<rightharpoonup> File) \<times> bool \<Rightarrow> item \<Rightarrow> File option" where
  "registry_lookup reg x =
    (case reg of
       (m, fm, exposed) \<Rightarrow>
         (case m x of Some f \<Rightarrow> Some f | None \<Rightarrow> (if exposed then fm x else None)))"

text \<open>What the list shows for an item whose upload has ended with the given outcome.\<close>

definition settled_view :: "error + json \<Rightarrow> string \<times> nat" where
  "settled_view v =
    (case v of Inr _ \<Rightarrow> (''Completed'', 100) | Inl (Error m) \<Rightarrow> (''Error: '' @ m, 0))"

text \<open>
  What the process button leaves in the list for item \<open>x\<close>, and whether it counts \<open>x\<close>
  as a success, when the registries are \<open>reg\<close> at the time the group of \<open>x\<close> starts.
\<close>

definition process_view ::
  "env \<Rightarrow> (item \<rightharpoonup> File) \<times> (item \<rightharpoonup> File) \<times> bool \<Rightarrow> item \<Rightarrow> string \<times> nat" where
  "process_view env reg x =
    (case registry_lookup reg x of
       None \<Rightarrow> (''Error: File not found'', 0)
     | Some _ \<Rightarrow> settled_view (upload_data (response env x)))"

definition process_success ::
  "env \<Rightarrow> (item \<rightharpoonup> File) \<times> (item \<rightharpoonup> File) \<times> bool \<Rightarrow> item \<Rightarrow> bool" where
  "process_success env reg x \<longleftrightarrow>
    registry_lookup reg x \<noteq> None \<and> isl (upload_data (response env x)) = False"

text \<open>The same for the summarize button in batch mode, with the result of the promise.\<close>

definition batch_view ::
  "env \<Rightarrow> (item \<rightharpoonup> File) \<times> (item \<rightharpoonup> File) \<times> bool \<Rightarrow> item \<Rightarrow> string \<times> nat" where
  "batch_view env reg x =
    (case fst reg x of
       None \<Rightarrow> (''Error: No file found'', 0)
     | Some _ \<Rightarrow> settled_view (process_data (response env x)))"

definition batch_result ::
  "env \<Rightarrow> (item \<rightharpoonup> File) \<times> (item \<rightharpoonup> File) \<times> bool \<Rightarrow> item \<Rightarrow> error + json" where
  "batch_result env reg x =
    (case fst reg x of
       None \<Rightarrow> Inl (Error ''No file found'')
     | Some _ \<Rightarrow> process_data (response env x))"

fun item_of :: "event \<Rightarrow> item" where
  "item_of (Fetch x) = x"
| "item_of (Settle x) = x"

text \<open>The registries when group \<open>h\<close> starts, in a run whose group \<open>g\<close> starts with the page \<open>p\<close>.\<close>

definition registry_at ::
  "env \<Rightarrow> 'a page_scheme \<Rightarrow> nat \<Rightarrow> nat \<Rightarrow> (item \<rightharpoonup> File) \<times> (item \<rightharpoonup> File) \<times> bool" where
  "registry_at env p g h = registry (ui_events (concat (map (during env) [g..<h])) p)"

text \<open>What the first half of a callback returns, and what it leaves in the list, as functions of
  the registries.\<close>

definition process_out ::
  "item \<Rightarrow> (item \<rightharpoonup> File) \<times> (item \<rightharpoonup> File) \<times> bool \<Rightarrow> (error + unit) option" where
  "process_out x reg = (case registry_lookup reg x of None \<Rightarrow> Some (Inr ()) | Some _ \<Rightarrow> None)"

definition process_sview ::
  "item \<Rightarrow> (item \<rightharpoonup> File) \<times> (item \<rightharpoonup> File) \<times> bool \<Rightarrow> string \<times> nat" where
  "process_sview x reg =
    (case registry_lookup reg x of
       None \<Rightarrow> (''Error: File not found'', 0)
     | Some _ \<Rightarrow> (''Uploading...'', 30))"

definition batch_out ::
  "item \<Rightarrow> (item \<rightharpoonup> File) \<times> (item \<rightharpoonup> File) \<times> bool \<Rightarrow> (error + json) option" where
  "batch_out x reg =
    (case fst reg x of None \<Rightarrow> Some (Inl (Error ''No file found'')) | Some _ \<Rightarrow> None)"

definition batch_sview ::
  "item \<Rightarrow> (item \<rightharpoonup> File) \<times> (item \<rightharpoonup> File) \<times> bool \<Rightarrow> string \<times> nat" where
  "batch_sview x reg =
    (case fst reg x of
       None \<Rightarrow> (''Error: No file found'', 0)
     | Some _ \<Rightarrow> (''Processing...'', 50))"

text \<open>The notification of line 354.\<close>

definition success_message :: "nat \<Rightarrow> string" where
  "success_message n = ''Successfully processed '' @ string_of_nat n @ '' file(s)''"

text \<open>The results of \<^verbatim>\<open>Promise.allSettled\<close> over the whole run, in the order of the items.\<close>

definition batch_results :: "env \<Rightarrow> page \<Rightarrow> (error + json) list" where
  "batch_results env p =
    map (\<lambda>a. batch_result env (registry (ui_events (events_before env (a div 3)) p))
                (fileList p ! a)) [0..<length (fileList p)]"

text \<open>The file name and the summary of each successful result.\<close>

definition blocks :: "json list \<Rightarrow> (string \<times> string) list" where
  "blocks ds = map (\<lambda>result. (js_str (filename result), js_str (summary result))) ds"



text \<open>
  The compression ratio before rounding, as the specification defines it, in exact
  arithmetic.
\<close>

definition percentage :: "nat \<Rightarrow> nat \<Rightarrow> rat" where
  "percentage originalWordCount summaryWordCount =
    (1 - of_nat summaryWordCount / of_nat originalWordCount) * 100"

section \<open>Example inputs\<close>

text \<open>The page after loading: no files, no messages, the text tab active.\<close>

definition page0 :: page where
  "page0 =
    \<lparr>shown = (\<lambda>_. None), fileList = [], checked = (\<lambda>_. False), status = (\<lambda>_. []),
     progress = (\<lambda>_. 0), fileMap = Map.empty, fh_fileMap = Map.empty, fh_exposed = False,
     activeTab = ''text'', targetLanguage = ''en'', inputText = [], processInBatch = False,
     processBtn_disabled = False, summarizeBtn_disabled = False, loading_hidden = True,
     outputText = [], calls = []\<rparr>"

definition notes_txt :: File where
  "notes_txt = \<lparr>file_name = ''notes.txt'', file_size = 2048, file_type = ''text/plain''\<rparr>"

definition scan_pdf :: File where
  "scan_pdf =
    \<lparr>file_name = ''scan.pdf'', file_size = 10485761, file_type = ''application/pdf''\<rparr>"

definition movie_mp4 :: File where
  "movie_mp4 = \<lparr>file_name = ''movie.mp4'', file_size = 4096, file_type = ''video/mp4''\<rparr>"

text \<open>A file whose type names a property of \<^verbatim>\<open>Object.prototype\<close>.\<close>

definition constructor_file :: File where
  "constructor_file =
    \<lparr>file_name = ''notes'', file_size = 2048, file_type = ''constructor''\<rparr>"

text \<open>A service that answers every upload with a summary, and a service that is down.\<close>

definition summary_json :: json where
  "summary_json = \<lparr>detail = NoDetail, filename = Some ''notes.txt'', summary = Some ''S1''\<rparr>"

definition env_ok :: env where
  "env_ok =
    \<lparr>response = (\<lambda>_. Response 200 (Json summary_json)), latency = (\<lambda>_. 0),
     during = (\<lambda>_. []), text_response = Response 200 (Json summary_json)\<rparr>"

definition env_down :: env where
  "env_down =
    \<lparr>response = (\<lambda>_. Failed_to_fetch ''Failed to fetch''), latency = (\<lambda>_. 0),
     during = (\<lambda>_. []), text_response = Failed_to_fetch ''Failed to fetch''\<rparr>"

text \<open>The file tab with the items \<open>1, \<dots>, n\<close>, all ticked, taken in by script.js.\<close>

definition page_with :: "nat \<Rightarrow> page" where
  "page_with n =
    page0\<lparr>fileList := [1..<Suc n], checked := (\<lambda>_. True),
          status := (\<lambda>_. ''Ready to process''),
          fileMap := (\<lambda>x. if 1 \<le> x \<and> x \<le> n then Some notes_txt else None),
          activeTab := ''file''\<rparr>"

text \<open>An item that only file-handler.js has taken in.\<close>

definition page_fh :: page where
  "page_fh = displayFileInfo 1 notes_txt (page0\<lparr>activeTab := ''file''\<rparr>)"

text \<open>The same page with the batch option ticked.\<close>

definition page_batch :: "nat \<Rightarrow> page" where
  "page_batch n = (page_with n)\<lparr>processInBatch := True\<rparr>"



section \<open>Properties of the validators\<close>

lemma media_type_not_inherited: "media_type t \<Longrightarrow> t \<notin> set Object_prototype_keys"
  by (auto simp: media_type_def Object_prototype_keys_def)

lemma truthy_property_media_type:
  "media_type t \<Longrightarrow> truthy_property own t \<longleftrightarrow> t \<in> set own"
  by (simp add: truthy_property_def media_type_not_inherited)

text \<open>
  A type that is not a media type can name an inherited property: such a file passes the
  type test although its type is not in the table.
\<close>

lemma validateFile_inherited_key:
  "fst (validateFile \<lparr>file_name = ''x'', file_size = 1, file_type = ''constructor''\<rparr> p)"
  by (simp add: validateFile_def maxFileSize_def truthy_property_def Object_prototype_keys_def)

text \<open>
  Claim C5 at a file whose type is \<^verbatim>\<open>constructor\<close>.  Its size is within the limit and its
  type is not one of the nine allowed types, and both validators accept it:
  \<^verbatim>\<open>acceptedTypes[file.type]\<close> and \<^verbatim>\<open>this.SUPPORTED_TYPES[file.type]\<close> find the property that
  the table inherits.  \<^verbatim>\<open>validateFile\<close> returns \<^verbatim>\<open>true\<close> without a message, and
  \<^verbatim>\<open>fileHandler.handleFiles\<close> displays the file.
\<close>

theorem validate_accepts_inherited_type:
  "file_size constructor_file \<le> 10485760
   \<and> file_type constructor_file \<notin>
        {''text/plain'', ''application/pdf'', ''application/msword'',
         ''application/vnd.openxmlformats-officedocument.wordprocessingml.document'',
         ''image/jpeg'', ''image/png'', ''image/gif'', ''image/bmp'', ''image/tiff''}
   \<and> validateFile constructor_file page0 = (True, page0)
   \<and> fileList (handleFiles_each 1 constructor_file page0) = [1]
   \<and> fh_handleFiles_each 1 constructor_file page0
        = (True, displayFileInfo 1 constructor_file page0)"
  by (simp add: constructor_file_def validateFile_def handleFiles_each_def
      fh_handleFiles_each_def maxFileSize_def MAX_FILE_SIZE_def truthy_property_def
      Object_prototype_keys_def updateFileStatus_def page0_def)

text \<open>
  For a candidate file whose type is what a browser reports for a file that the user picks
  (a media type or the empty string), both validators accept the file if and only if its
  size is at most 10,485,760 bytes and its type is one of the nine allowed types.  A file
  that is too large is rejected with the message of the size rule whatever its type is; a
  file that is not too large and is rejected gets the message of the type rule.
\<close>

theorem validate_accepts_iff:
  assumes "media_type (file_type f)"
  shows "(fst (validateFile f p) \<longleftrightarrow>
            file_size f \<le> 10485760 \<and>
            file_type f \<in> {''text/plain'', ''application/pdf'', ''application/msword'',
              ''application/vnd.openxmlformats-officedocument.wordprocessingml.document'',
              ''image/jpeg'', ''image/png'', ''image/gif'', ''image/bmp'', ''image/tiff''})
       \<and> (file_size f > 10485760 \<longrightarrow>
            validateFile f p =
              (False, showError ''File size must be less than 10MB'' ErrorContainer p))
       \<and> (file_size f \<le> 10485760 \<and> \<not> fst (validateFile f p) \<longrightarrow>
            validateFile f p = (False, showError ''File type not supported'' ErrorContainer p))
       \<and> (fst (fh_handleFiles_each x f p) \<longleftrightarrow>
            file_size f \<le> 10485760 \<and>
            file_type f \<in> {''text/plain'', ''application/pdf'', ''application/msword'',
              ''application/vnd.openxmlformats-officedocument.wordprocessingml.document'',
              ''image/jpeg'', ''image/png'', ''image/gif'', ''image/bmp'', ''image/tiff''})
       \<and> (file_size f > 10485760 \<longrightarrow>
            fh_handleFiles_each x f p =
              (False, fh_showError
                 (''File '' @ file_name f @ '' is too large. Maximum size is 10 MB'') p))
       \<and> (file_size f \<le> 10485760 \<and> \<not> fst (fh_handleFiles_each x f p) \<longrightarrow>
            fh_handleFiles_each x f p =
              (False, fh_showError
                 (''File type '' @ file_type f @ '' is not supported for '' @ file_name f) p))"
  using assms
  by (simp add: validateFile_def fh_handleFiles_each_def truthy_property_media_type
      maxFileSize_def MAX_FILE_SIZE_def acceptedTypes_def SUPPORTED_TYPES_def)

theorem validate_accepts_iff_witness:
  "media_type (file_type scan_pdf) \<and> file_size scan_pdf > 10485760
   \<and> \<not> fst (validateFile scan_pdf page0)
   \<and> validateFile scan_pdf page0 =
       (False, showError ''File size must be less than 10MB'' ErrorContainer page0)
   \<and> media_type (file_type movie_mp4) \<and> file_size movie_mp4 \<le> 10485760
   \<and> \<not> fst (validateFile movie_mp4 page0)
   \<and> validateFile movie_mp4 page0 =
       (False, showError ''File type not supported'' ErrorContainer page0)
   \<and> fh_handleFiles_each 1 movie_mp4 page0 =
       (False, fh_showError ''File type video/mp4 is not supported for movie.mp4'' page0)
   \<and> media_type (file_type notes_txt) \<and> fst (validateFile notes_txt page0)
   \<and> fst (fh_handleFiles_each 1 notes_txt page0)"
  using validate_accepts_iff [of scan_pdf page0 1] validate_accepts_iff [of movie_mp4 page0 1]
    validate_accepts_iff [of notes_txt page0 1]
  by (simp add: scan_pdf_def movie_mp4_def notes_txt_def media_type_def)

text \<open>
  Claim C9, as stated: validation changes no state.  It fails: rejecting a file puts
  a message into the error container, in both scripts.
\<close>

theorem validate_changes_error_container:
  "shown (snd (validateFile scan_pdf page0)) ErrorContainer \<noteq> shown page0 ErrorContainer
   \<and> snd (validateFile scan_pdf page0) \<noteq> page0
   \<and> snd (fh_handleFiles_each 1 scan_pdf page0) \<noteq> page0"
  by (simp add: validateFile_def fh_handleFiles_each_def scan_pdf_def page0_def showError_def
      fh_showError_def maxFileSize_def MAX_FILE_SIZE_def)

text \<open>
  Claim C9, amended.  Validation that accepts a file changes nothing.  Validation that
  rejects a file changes the message in the error container and nothing else: the file
  list, the statuses, the registries, the buttons and the output stay as they are.
\<close>

theorem validate_frame:
  "(fst (validateFile f p) \<longrightarrow> snd (validateFile f p) = p)
   \<and> snd (validateFile f p)
      = p\<lparr>shown := (shown p)(ErrorContainer := shown (snd (validateFile f p)) ErrorContainer)\<rparr>
   \<and> (\<not> fst (fh_handleFiles_each x f p) \<longrightarrow>
        snd (fh_handleFiles_each x f p)
        = p\<lparr>shown := (shown p)
               (ErrorContainer := shown (snd (fh_handleFiles_each x f p)) ErrorContainer)\<rparr>)"
  by (simp add: validateFile_def fh_handleFiles_each_def showError_def fh_showError_def)

theorem validate_frame_witness:
  "fst (validateFile notes_txt page0) \<and> snd (validateFile notes_txt page0) = page0
   \<and> \<not> fst (fh_handleFiles_each 1 scan_pdf page0)
   \<and> snd (fh_handleFiles_each 1 scan_pdf page0)
        = page0\<lparr>shown := (shown page0)
               (ErrorContainer := shown (snd (fh_handleFiles_each 1 scan_pdf page0))
                  ErrorContainer)\<rparr>"
proof -
  have a: "fst (validateFile notes_txt page0)"
    by (simp add: validateFile_def notes_txt_def maxFileSize_def truthy_property_def
        acceptedTypes_def)
  have c: "\<not> fst (fh_handleFiles_each 1 scan_pdf page0)"
    by (simp add: fh_handleFiles_each_def scan_pdf_def MAX_FILE_SIZE_def)
  show ?thesis
    using a c validate_frame [of notes_txt page0 1] validate_frame [of scan_pdf page0 1]
    by blast
qed

section \<open>Properties of the two upload operations\<close>

text \<open>
  Claim C7, as stated: the status is Uploading before the remote call is made.  It fails
  for \<^verbatim>\<open>processFile\<close>, which the summarize button uses: the status is
  \<^verbatim>\<open>Processing...\<close> when the call is made.
\<close>

theorem processFile_status_not_uploading:
  "\<not> (status (processFile_start 1 notes_txt page0) 1 = ''Uploading...'')
   \<and> calls (processFile_start 1 notes_txt page0) = [Fetch 1]"
  by (simp add: processFile_start_def fetch_def updateFileStatus_def page0_def)

text \<open>
  Claim C7, amended.  When the remote call is made the status of the item is
  \<^verbatim>\<open>Uploading...\<close> with progress 30 in \<^verbatim>\<open>uploadFile\<close>, and \<^verbatim>\<open>Processing...\<close> with
  progress 50 in \<^verbatim>\<open>processFile\<close>.  In both, the status is \<^verbatim>\<open>Completed\<close> with progress 100
  when the call succeeds, and \<^verbatim>\<open>Error:\<close> followed by the error's message, with progress 0,
  when it fails.
\<close>

theorem status_transitions:
  "status (uploadFile_start x f p) x = ''Uploading...''
   \<and> progress (uploadFile_start x f p) x = 30
   \<and> calls (uploadFile_start x f p) = calls p @ [Fetch x]
   \<and> status (processFile_start x f p) x = ''Processing...''
   \<and> progress (processFile_start x f p) x = 50
   \<and> calls (processFile_start x f p) = calls p @ [Fetch x]
   \<and> (\<forall>d. upload_data r = Inr d \<longrightarrow>
         fst (uploadFile_resume x r p) = Inr d
         \<and> status (snd (uploadFile_resume x r p)) x = ''Completed''
         \<and> progress (snd (uploadFile_resume x r p)) x = 100)
   \<and> (\<forall>m. upload_data r = Inl (Error m) \<longrightarrow>
         fst (uploadFile_resume x r p) = Inl (Error m)
         \<and> status (snd (uploadFile_resume x r p)) x = ''Error: '' @ m
         \<and> progress (snd (uploadFile_resume x r p)) x = 0)
   \<and> (\<forall>d. process_data r = Inr d \<longrightarrow>
         fst (processFile_resume x r p) = Inr d
         \<and> status (snd (processFile_resume x r p)) x = ''Completed''
         \<and> progress (snd (processFile_resume x r p)) x = 100)
   \<and> (\<forall>m. process_data r = Inl (Error m) \<longrightarrow>
         fst (processFile_resume x r p) = Inl (Error m)
         \<and> status (snd (processFile_resume x r p)) x = ''Error: '' @ m
         \<and> progress (snd (processFile_resume x r p)) x = 0)"
  by (simp add: uploadFile_start_def processFile_start_def fetch_def updateFileStatus_def
      uploadFile_resume_def processFile_resume_def)

theorem status_transitions_witness:
  "upload_data (Response 200 (Json summary_json)) = Inr summary_json
   \<and> status (snd (uploadFile_resume 1 (Response 200 (Json summary_json)) page0)) 1
       = ''Completed''
   \<and> progress (snd (uploadFile_resume 1 (Response 200 (Json summary_json)) page0)) 1 = 100
   \<and> process_data (Response 200 (Json summary_json)) = Inr summary_json
   \<and> status (snd (processFile_resume 1 (Response 200 (Json summary_json)) page0)) 1
       = ''Completed''
   \<and> upload_data (Failed_to_fetch ''Failed to fetch'') = Inl (Error ''Failed to fetch'')
   \<and> status (snd (uploadFile_resume 1 (Failed_to_fetch ''Failed to fetch'') page0)) 1
       = ''Error: Failed to fetch''
   \<and> progress (snd (uploadFile_resume 1 (Failed_to_fetch ''Failed to fetch'') page0)) 1 = 0
   \<and> process_data (Failed_to_fetch ''Failed to fetch'') = Inl (Error ''Failed to fetch'')
   \<and> status (snd (processFile_resume 1 (Failed_to_fetch ''Failed to fetch'') page0)) 1
       = ''Error: Failed to fetch''
   \<and> progress (snd (processFile_resume 1 (Failed_to_fetch ''Failed to fetch'') page0)) 1 = 0"
proof -
  have a: "upload_data (Response 200 (Json summary_json)) = Inr summary_json"
    and b: "process_data (Response 200 (Json summary_json)) = Inr summary_json"
    and c: "upload_data (Failed_to_fetch ''Failed to fetch'') = Inl (Error ''Failed to fetch'')"
    and d: "process_data (Failed_to_fetch ''Failed to fetch'') = Inl (Error ''Failed to fetch'')"
    by (simp_all add: upload_data_def process_data_def handleApiResponse_def ok_def)
  show ?thesis
    using a b c d
      status_transitions [of 1 notes_txt page0 "Response 200 (Json summary_json)"]
      status_transitions [of 1 notes_txt page0 "Failed_to_fetch ''Failed to fetch''"]
    by simp
qed

section \<open>The compression ratio\<close>

subsection \<open>Rounding\<close>

lemma pow2_powi: "pow2 e = 2 powi e"
  by (simp add: pow2_def power_int_def field_simps)

lemma pow2_pos [simp]: "0 < pow2 e"
  by (simp add: pow2_powi)

lemma pow2_add: "pow2 (i + j) = pow2 i * pow2 j"
  by (simp add: pow2_powi power_int_add)

lemma pow2_mono: "i \<le> j \<Longrightarrow> pow2 i \<le> pow2 j"
  by (simp add: pow2_powi power_int_increasing)

lemma pow2_nat: "pow2 (int n) = 2 ^ n"
  by (simp add: pow2_def)

lemma pow2_diff: "pow2 (i - j) = pow2 i / pow2 j"
  by (simp add: pow2_powi power_int_diff)

lemma exponent_bounds:
  assumes "0 < x"
  shows "pow2 (exponent x) \<le> x" "x < pow2 (exponent x + 1)"
proof -
  obtain a b where q: "quotient_of x = (a, b)" by (cases "quotient_of x")
  have b: "0 < b" using quotient_of_denom_pos [OF q] .
  have x: "x = of_int a / of_int b" using quotient_of_div [OF q] .
  have a: "0 < a" using assms b x by (simp add: zero_less_divide_iff)
  define e where "e = bitlen a - bitlen b"
  have ex: "exponent x = (if x < pow2 e then e - 1 else e)"
    by (simp add: exponent_def q e_def Let_def)
  have la: "0 < bitlen a" "0 < bitlen b"
    using a b bitlen_eq_zero_iff [of a] bitlen_eq_zero_iff [of b]
      bitlen_nonneg [of a] bitlen_nonneg [of b]
    by linarith+
  have A: "pow2 (bitlen a - 1) \<le> of_int a" "of_int a < pow2 (bitlen a)"
    and B: "pow2 (bitlen b - 1) \<le> of_int b" "of_int b < pow2 (bitlen b)"
  proof -
    have "(2::int) ^ nat (bitlen a - 1) \<le> a" "a < 2 ^ nat (bitlen a)"
      using bitlen_bounds [OF a] by simp_all
    then have "(of_int (2 ^ nat (bitlen a - 1)) :: rat) \<le> of_int a"
      "(of_int a :: rat) < of_int (2 ^ nat (bitlen a))"
      by (simp_all only: of_int_le_iff of_int_less_iff)
    then show "pow2 (bitlen a - 1) \<le> of_int a" "of_int a < pow2 (bitlen a)"
      using la by (simp_all add: pow2_def)
    have "(2::int) ^ nat (bitlen b - 1) \<le> b" "b < 2 ^ nat (bitlen b)"
      using bitlen_bounds [OF b] by simp_all
    then have "(of_int (2 ^ nat (bitlen b - 1)) :: rat) \<le> of_int b"
      "(of_int b :: rat) < of_int (2 ^ nat (bitlen b))"
      by (simp_all only: of_int_le_iff of_int_less_iff)
    then show "pow2 (bitlen b - 1) \<le> of_int b" "of_int b < pow2 (bitlen b)"
      using la by (simp_all add: pow2_def)
  qed
  have bp: "(0::rat) < of_int b" using b by simp
  have lo: "pow2 (e - 1) \<le> x"
  proof -
    have "pow2 (e - 1) * of_int b \<le> pow2 (e - 1) * pow2 (bitlen b)"
      using B(2) by (simp add: mult_left_mono)
    also have "\<dots> = pow2 (bitlen a - 1)"
      unfolding pow2_add [symmetric] e_def by (simp add: algebra_simps)
    also have "\<dots> \<le> of_int a" by (rule A(1))
    finally show ?thesis unfolding x using bp by (simp add: pos_le_divide_eq)
  qed
  have hi: "x < pow2 (e + 1)"
  proof -
    have "of_int a < pow2 (bitlen a)" by (rule A(2))
    also have "\<dots> = pow2 (e + 1) * pow2 (bitlen b - 1)"
      unfolding pow2_add [symmetric] e_def by (simp add: algebra_simps)
    also have "\<dots> \<le> pow2 (e + 1) * of_int b"
      using B(1) by (simp add: mult_left_mono)
    finally show ?thesis unfolding x using bp by (simp add: pos_divide_less_eq)
  qed
  show "pow2 (exponent x) \<le> x" "x < pow2 (exponent x + 1)"
    using lo hi by (auto simp: ex)
qed

lemma round_half_even_error: "\<bar>of_int (round_half_even y) - y\<bar> \<le> 1 / 2"
proof -
  have "of_int \<lfloor>y\<rfloor> \<le> y" "y < of_int \<lfloor>y\<rfloor> + 1" by linarith+
  then show ?thesis
    by (auto simp: round_half_even_def Let_def abs_le_iff)
qed

lemma round_half_even_of_int [simp]: "round_half_even (of_int k) = k"
  by (simp add: round_half_even_def)


lemma binary64_error:
  "\<bar>binary64 x - x\<bar> \<le> \<bar>x\<bar> / 2 ^ 53 + 1 / 2 ^ 1075"
proof (cases "x = 0")
  case True
  then show ?thesis by (simp add: binary64_def)
next
  case False
  then have ax: "0 < \<bar>x\<bar>" by simp
  define e where "e = max (exponent \<bar>x\<bar>) (- 1022)"
  define ulp where "ulp = pow2 (e - 52)"
  have up: "0 < ulp" by (simp add: ulp_def)
  have b: "binary64 x = of_int (round_half_even (x / ulp)) * ulp"
    using False by (simp add: binary64_def e_def ulp_def Let_def)
  have "\<bar>binary64 x - x\<bar> = \<bar>of_int (round_half_even (x / ulp)) - x / ulp\<bar> * ulp"
  proof -
    have "binary64 x - x = (of_int (round_half_even (x / ulp)) - x / ulp) * ulp"
      using up by (simp add: b field_simps)
    then show ?thesis using up by (simp add: abs_mult)
  qed
  also have "\<dots> \<le> 1 / 2 * ulp"
    using round_half_even_error [of "x / ulp"] up by (simp add: mult_right_mono)
  also have "\<dots> = pow2 (e - 53)"
  proof -
    have "pow2 (e - 52) = pow2 (e - 53) * pow2 1"
      unfolding pow2_add [symmetric] by simp
    then show ?thesis by (simp add: ulp_def pow2_def)
  qed
  finally have err: "\<bar>binary64 x - x\<bar> \<le> pow2 (e - 53)" .
  show ?thesis
  proof (cases "- 1022 \<le> exponent \<bar>x\<bar>")
    case True
    then have "e = exponent \<bar>x\<bar>" by (simp add: e_def)
    moreover have "pow2 53 = 2 ^ 53" by (simp add: pow2_def)
    ultimately have "pow2 (e - 53) = pow2 (exponent \<bar>x\<bar>) / 2 ^ 53"
      by (simp only: pow2_diff)
    also have "\<dots> \<le> \<bar>x\<bar> / 2 ^ 53"
      using exponent_bounds(1) [OF ax] by (simp add: divide_right_mono)
    finally show ?thesis using err by simp
  next
    case False
    then have "e = - 1022" by (simp add: e_def)
    then have "pow2 (e - 53) = 1 / 2 ^ 1075" by (simp add: pow2_def)
    then show ?thesis using err by simp
  qed
qed

lemma binary64_of_int:
  assumes "\<bar>n\<bar> < 2 ^ 53"
  shows "binary64 (of_int n) = of_int n"
proof (cases "n = 0")
  case True
  then show ?thesis by (simp add: binary64_def)
next
  case False
  define x :: rat where "x = of_int n"
  have x0: "x \<noteq> 0" using False by (simp add: x_def)
  have ax: "1 \<le> \<bar>x\<bar>" "\<bar>x\<bar> < 2 ^ 53"
  proof -
    have "1 \<le> \<bar>n\<bar>" using False by simp
    then have "(of_int 1 :: rat) \<le> of_int \<bar>n\<bar>" by (simp only: of_int_le_iff)
    then show "1 \<le> \<bar>x\<bar>" by (simp add: x_def)
    have "(of_int \<bar>n\<bar> :: rat) < of_int (2 ^ 53)" using assms by (simp only: of_int_less_iff)
    then show "\<bar>x\<bar> < 2 ^ 53" by (simp add: x_def)
  qed
  define e0 where "e0 = exponent \<bar>x\<bar>"
  have pos: "0 < \<bar>x\<bar>" using ax(1) by simp
  note eb = exponent_bounds [OF pos, folded e0_def]
  have lo: "0 \<le> e0"
  proof (rule ccontr)
    assume "\<not> 0 \<le> e0"
    then have "e0 + 1 \<le> 0" by simp
    then have "pow2 (e0 + 1) \<le> pow2 0" by (rule pow2_mono)
    then show False using eb(2) ax(1) by (simp add: pow2_def)
  qed
  have hi: "e0 \<le> 52"
  proof (rule ccontr)
    assume "\<not> e0 \<le> 52"
    then have "53 \<le> e0" by simp
    then have "pow2 53 \<le> pow2 e0" by (rule pow2_mono)
    then show False using eb(1) ax(2) by (simp add: pow2_def)
  qed
  have e: "max e0 (- 1022) = e0" using lo by simp
  define k where "k = nat (52 - e0)"
  have ulp: "pow2 (e0 - 52) = 1 / 2 ^ k"
  proof (cases "e0 = 52")
    case True
    then show ?thesis by (simp add: pow2_def k_def)
  next
    case False
    then have "e0 - 52 < 0" using hi by simp
    then show ?thesis by (simp add: pow2_def k_def)
  qed
  have "x / pow2 (e0 - 52) = of_int (n * 2 ^ k)"
    by (simp add: ulp x_def)
  then have "round_half_even (x / pow2 (e0 - 52)) = n * 2 ^ k"
    by (simp only: round_half_even_of_int)
  then have "binary64 x = of_int (n * 2 ^ k) * (1 / 2 ^ k)"
    using x0 by (simp add: binary64_def e0_def [symmetric] e Let_def ulp)
  then show ?thesis by (simp add: x_def)
qed

lemma double_bounded:
  assumes "\<bar>x\<bar> \<le> 2 ^ 100"
  shows "double x = Some (binary64 x)"
proof -
  have "\<bar>binary64 x\<bar> \<le> \<bar>x\<bar> + \<bar>binary64 x - x\<bar>" by linarith
  also have "\<dots> \<le> \<bar>x\<bar> + (\<bar>x\<bar> / 2 ^ 53 + 1 / 2 ^ 1075)"
    using binary64_error [of x] by linarith
  also have "\<dots> \<le> 2 ^ 100 + (2 ^ 100 / 2 ^ 53 + 1 / 2 ^ 1075)"
    using assms by (intro add_mono divide_right_mono) simp_all
  also have "\<dots> < 2 ^ 1024" by simp
  finally show ?thesis by (simp add: double_def pow2_def)
qed

lemma double_of_int:
  assumes "\<bar>n\<bar> < 2 ^ 53"
  shows "double (of_int n) = Some (of_int n)"
proof -
  have "(of_int \<bar>n\<bar> :: rat) < of_int (2 ^ 53)" using assms by (simp only: of_int_less_iff)
  then have "\<bar>of_int n :: rat\<bar> \<le> 2 ^ 100" by simp
  then show ?thesis using double_bounded binary64_of_int [OF assms] by simp
qed

lemma Math_round_of_int [simp]: "Math_round (of_int k) = k"
  unfolding Math_round_def by (rule floor_unique) simp_all

lemma animateNumber_last_exact:
  fixes a b :: int
  assumes "\<bar>a\<bar> < 2 ^ 52" "\<bar>b\<bar> < 2 ^ 52"
  shows "animateNumber_last (of_int a) (Some (of_int b)) = Some b"
proof -
  have f: "\<bar>b - a\<bar> < 2 ^ 53" "\<bar>b\<bar> < 2 ^ 53" using assms by simp_all
  show ?thesis
    using double_of_int [OF f(1)] double_of_int [OF f(2)]
    by (simp add: animateNumber_last_def animateNumber_current_def)
qed


subsection \<open>The error of the ratio\<close>

lemma scaled_error:
  fixes c y z h :: rat
  assumes "0 < c" "\<bar>y - z\<bar> \<le> \<bar>z\<bar> / 2 ^ 53 + h"
  shows "c * \<bar>y - z\<bar> \<le> c * \<bar>z\<bar> / 2 ^ 53 + c * h"
proof -
  have "c * \<bar>y - z\<bar> \<le> c * (\<bar>z\<bar> / 2 ^ 53 + h)"
    using assms by (simp add: mult_left_mono)
  then show ?thesis by (simp add: algebra_simps)
qed

lemma ratio_error:
  fixes N M :: rat
  assumes N: "1 \<le> N" "N \<le> 2 ^ 42" and M: "0 \<le> M" "M \<le> 2 ^ 42"
  shows "\<exists>p. ratio N M = Some (Math_round p)
             \<and> N * \<bar>p - (1 - M / N) * 100\<bar> < 1 / 2"
proof -
  define h :: rat where "h = 1 / 2 ^ 1075"
  define r where "r = M / N"
  define q where "q = binary64 r"
  define d where "d = binary64 (1 - q)"
  define p where "p = binary64 (d * 100)"
  have N0: "0 < N" using N(1) by simp
  have Nr: "N * r = M" using N0 by (simp add: r_def)
  have r0: "0 \<le> r" using M(1) N0 by (simp add: r_def)
  have rM: "r \<le> M" 
  proof -
    have "M / N \<le> M / 1" using N(1) M(1) by (intro divide_left_mono) simp_all
    then show ?thesis by (simp add: r_def)
  qed
  define A where "A = N * \<bar>q - r\<bar>"
  define B where "B = N * \<bar>d - (1 - q)\<bar>"
  define C where "C = N * \<bar>p - d * 100\<bar>"
  have h: "0 < h" "h \<le> 1 / 2 ^ 100" by (simp_all add: h_def)
  define t where "t = N * h"
  have Nh: "0 \<le> t" "t \<le> 1 / 2 ^ 58"
    unfolding t_def
  proof -
    show "0 \<le> N * h" using N0 h(1) by simp
    have "N * h \<le> 2 ^ 42 * (1 / 2 ^ 100)"
      using N h N0 by (intro mult_mono) simp_all
    then show "N * h \<le> 1 / 2 ^ 58" by simp
  qed
  have A0: "0 \<le> A" "0 \<le> B" "0 \<le> C" using N0 by (simp_all add: A_def B_def C_def)
  have A: "A \<le> M / 2 ^ 53 + t"
  proof -
    have "N * \<bar>q - r\<bar> \<le> N * \<bar>r\<bar> / 2 ^ 53 + t"
      unfolding q_def by (rule scaled_error [OF N0 binary64_error [folded h_def], folded t_def])
    moreover have "N * \<bar>r\<bar> = M" using r0 Nr by simp
    ultimately show ?thesis unfolding A_def by simp
  qed
  have q1: "N * \<bar>1 - q\<bar> \<le> N + M + A"
  proof -
    have "\<bar>1 - q\<bar> \<le> 1 + r + \<bar>q - r\<bar>" using r0 by linarith
    then have "N * \<bar>1 - q\<bar> \<le> N * (1 + r + \<bar>q - r\<bar>)"
      using N0 by (simp add: mult_left_mono)
    also have "\<dots> = N + M + A" by (simp add: algebra_simps Nr A_def)
    finally show ?thesis .
  qed
  have B: "B \<le> (N + M + A) / 2 ^ 53 + t"
  proof -
    have "N * \<bar>d - (1 - q)\<bar> \<le> N * \<bar>1 - q\<bar> / 2 ^ 53 + t"
      unfolding d_def by (rule scaled_error [OF N0 binary64_error [folded h_def], folded t_def])
    moreover have "N * \<bar>1 - q\<bar> / 2 ^ 53 \<le> (N + M + A) / 2 ^ 53"
      using q1 by (simp add: divide_right_mono)
    ultimately show ?thesis unfolding B_def by linarith
  qed
  have d1: "N * \<bar>d\<bar> \<le> N + M + A + B"
  proof -
    have "\<bar>d\<bar> \<le> \<bar>1 - q\<bar> + \<bar>d - (1 - q)\<bar>" by linarith
    then have "N * \<bar>d\<bar> \<le> N * (\<bar>1 - q\<bar> + \<bar>d - (1 - q)\<bar>)"
      using N0 by (simp add: mult_left_mono)
    also have "\<dots> = N * \<bar>1 - q\<bar> + B" by (simp add: algebra_simps B_def)
    finally show ?thesis using q1 by linarith
  qed
  have C: "C \<le> 100 * (N + M + A + B) / 2 ^ 53 + t"
  proof -
    have "N * \<bar>p - d * 100\<bar> \<le> N * \<bar>d * 100\<bar> / 2 ^ 53 + t"
      unfolding p_def by (rule scaled_error [OF N0 binary64_error [folded h_def], folded t_def])
    moreover have "N * \<bar>d * 100\<bar> = 100 * (N * \<bar>d\<bar>)" by (simp add: abs_mult)
    ultimately have "C \<le> 100 * (N * \<bar>d\<bar>) / 2 ^ 53 + t"
      unfolding C_def by (simp only:)
    moreover have "100 * (N * \<bar>d\<bar>) / 2 ^ 53 \<le> 100 * (N + M + A + B) / 2 ^ 53"
      using d1 by (simp add: divide_right_mono)
    ultimately show ?thesis by linarith
  qed
  have An: "A \<le> 1 / 2 ^ 10" using A M(2) Nh(2) by (simp add: add_divide_distrib)
  have Bn: "B \<le> 1 / 2 ^ 9" using B N(2) M(2) An Nh(2) by (simp add: add_divide_distrib)
  have Cn: "C \<le> 1 / 8" using C N(2) M(2) An Bn Nh(2) by (simp add: add_divide_distrib distrib_left)
  have total: "N * \<bar>p - (1 - r) * 100\<bar> \<le> C + 100 * B + 100 * A"
  proof -
    have T: "\<bar>X + Y + Z\<bar> \<le> \<bar>X\<bar> + \<bar>Y\<bar> + \<bar>Z\<bar>" for X Y Z :: rat
      by linarith
    have "p - (1 - r) * 100 = (p - d * 100) + 100 * (d - (1 - q)) + 100 * (r - q)"
      by (simp add: algebra_simps)
    then have "\<bar>p - (1 - r) * 100\<bar>
        = \<bar>(p - d * 100) + 100 * (d - (1 - q)) + 100 * (r - q)\<bar>"
      by (simp only:)
    also have "\<dots> \<le> \<bar>p - d * 100\<bar> + \<bar>100 * (d - (1 - q))\<bar> + \<bar>100 * (r - q)\<bar>"
      by (rule T)
    also have "\<dots> = \<bar>p - d * 100\<bar> + 100 * \<bar>d - (1 - q)\<bar> + 100 * \<bar>q - r\<bar>"
      by (simp only: abs_mult abs_numeral abs_minus_commute [of r q])
    finally have "\<bar>p - (1 - r) * 100\<bar>
        \<le> \<bar>p - d * 100\<bar> + 100 * \<bar>d - (1 - q)\<bar> + 100 * \<bar>q - r\<bar>" .
    then have "N * \<bar>p - (1 - r) * 100\<bar>
        \<le> N * (\<bar>p - d * 100\<bar> + 100 * \<bar>d - (1 - q)\<bar> + 100 * \<bar>q - r\<bar>)"
      using N0 by (simp add: mult_left_mono)
    then show ?thesis by (simp add: algebra_simps A_def B_def C_def)
  qed
  have small: "N * \<bar>p - (1 - M / N) * 100\<bar> < 1 / 2"
    using total An Bn Cn by (simp add: r_def)
  have b1: "\<bar>r\<bar> \<le> 2 ^ 100" using r0 rM M(2) by simp
  have le1: "\<bar>z\<bar> \<le> N * \<bar>z\<bar>" for z :: rat
    using N(1) mult_right_mono [of 1 N "\<bar>z\<bar>"] by simp
  have b2: "\<bar>1 - q\<bar> \<le> 2 ^ 100"
    using le1 [of "1 - q"] q1 N(2) M(2) An by simp
  have b3: "\<bar>d * 100\<bar> \<le> 2 ^ 100"
  proof -
    have "\<bar>d\<bar> \<le> 2 ^ 44" using le1 [of d] d1 N(2) M(2) An Bn by simp
    then show ?thesis by (simp add: abs_mult)
  qed
  have "ratio N M = Some (Math_round p)"
    using double_bounded [OF b1] double_bounded [OF b2, folded d_def]
      double_bounded [OF b3, folded p_def]
    using N0 by (simp add: ratio_def r_def [symmetric] q_def [symmetric] d_def [symmetric])
  then show ?thesis using small by blast
qed

lemma Math_round_near:
  fixes x p :: rat and c z :: int
  assumes c: "0 < c" and z: "of_int c * (x + 1 / 2) = of_int z"
    and near: "of_int c * \<bar>p - x\<bar> < 1"
  shows "Math_round p = round x \<or> Math_round p = round x - 1"
    and "of_int (round x) \<noteq> x + 1 / 2 \<Longrightarrow> Math_round p = round x"
proof -
  define k where "k = round x"
  define C :: rat where "C = of_int c"
  have C: "1 \<le> C" "0 < C" using c by (simp_all add: C_def)
  have k: "of_int k \<le> x + 1 / 2" "x + 1 / 2 < of_int k + 1"
    unfolding k_def round_def by linarith+
  have "C * of_int k \<le> C * (x + 1 / 2)" "C * (x + 1 / 2) < C * (of_int k + 1)"
    using k C(2) by (simp_all add: mult_left_mono)
  then have "(of_int (c * k) :: rat) \<le> of_int z" "(of_int z :: rat) < of_int (c * k + c)"
    using z by (simp_all add: C_def algebra_simps)
  then have zk: "c * k \<le> z" "z < c * k + c"
    by (simp_all only: of_int_le_iff of_int_less_iff)
  then have "z + 1 \<le> c * k + c" by simp
  then have "(of_int (z + 1) :: rat) \<le> of_int (c * k + c)" by (simp only: of_int_le_iff)
  then have up: "C * (x + 1 / 2) + 1 \<le> C * (of_int k + 1)"
    using z by (simp add: C_def algebra_simps)
  have pm: "C * (p + 1 / 2) < C * (x + 1 / 2) + 1" "C * (x + 1 / 2) - 1 < C * (p + 1 / 2)"
  proof -
    have "C * (p + 1 / 2) - C * (x + 1 / 2) = C * (p - x)"
      by (simp add: algebra_simps)
    then have "\<bar>C * (p + 1 / 2) - C * (x + 1 / 2)\<bar> = \<bar>C\<bar> * \<bar>p - x\<bar>"
      by (simp only: abs_mult)
    then have "C * \<bar>p - x\<bar> = \<bar>C * (p + 1 / 2) - C * (x + 1 / 2)\<bar>"
      using C(2) by simp
    then have "\<bar>C * (p + 1 / 2) - C * (x + 1 / 2)\<bar> < 1" using near by (simp add: C_def)
    then show "C * (p + 1 / 2) < C * (x + 1 / 2) + 1" "C * (x + 1 / 2) - 1 < C * (p + 1 / 2)"
      by linarith+
  qed
  have hi: "p + 1 / 2 < of_int k + 1"
  proof -
    have "C * (p + 1 / 2) < C * (of_int k + 1)" using pm(1) up by linarith
    then show ?thesis using C(2) by (simp only: mult_less_cancel_left_pos)
  qed
  have lo: "of_int k - 1 < p + 1 / 2"
  proof -
    have "C * of_int k - C \<le> C * (x + 1 / 2) - 1"
      using \<open>C * of_int k \<le> C * (x + 1 / 2)\<close> C(1) by linarith
    then have "C * (of_int k - 1) < C * (p + 1 / 2)"
      using pm(2) by (simp add: algebra_simps)
    then show ?thesis using C(2) by (simp only: mult_less_cancel_left_pos)
  qed
  have "\<lfloor>p + 1 / 2\<rfloor> = k \<or> \<lfloor>p + 1 / 2\<rfloor> = k - 1"
  proof (cases "of_int k \<le> p + 1 / 2")
    case True
    then have "\<lfloor>p + 1 / 2\<rfloor> = k" using hi by (intro floor_unique) simp_all
    then show ?thesis by simp
  next
    case False
    then have "\<lfloor>p + 1 / 2\<rfloor> = k - 1" using lo by (intro floor_unique) simp_all
    then show ?thesis by simp
  qed
  then show "Math_round p = round x \<or> Math_round p = round x - 1"
    by (simp add: Math_round_def k_def)
  show "Math_round p = round x" if nt: "of_int (round x) \<noteq> x + 1 / 2"
  proof -
    have "c * k \<noteq> z"
    proof
      assume "c * k = z"
      then have "(of_int (c * k) :: rat) = of_int z" by simp
      then have "C * of_int k = C * (x + 1 / 2)" using z by (simp add: C_def)
      then have "of_int k = x + 1 / 2" using C(2) by simp
      then show False using nt by (simp add: k_def)
    qed
    then have "c * k + 1 \<le> z" using zk(1) by simp
    then have "(of_int (c * k + 1) :: rat) \<le> of_int z" by (simp only: of_int_le_iff)
    then have "C * of_int k + 1 \<le> C * (x + 1 / 2)" using z by (simp add: C_def)
    then have "C * of_int k < C * (p + 1 / 2)" using pm(2) by linarith
    then have "of_int k < p + 1 / 2" using C(2) by (simp only: mult_less_cancel_left_pos)
    then have "\<lfloor>p + 1 / 2\<rfloor> = k" using hi by (intro floor_unique) simp_all
    then show ?thesis by (simp add: Math_round_def k_def)
  qed
qed

lemma round_bound:
  fixes x :: rat
  assumes "\<bar>x\<bar> \<le> of_int b"
  shows "\<bar>round x\<bar> \<le> b + 1"
proof -
  have "of_int (round x) \<le> x + 1 / 2" "x + 1 / 2 < of_int (round x) + 1"
    unfolding round_def by linarith+
  then have "(of_int (round x) :: rat) < of_int (b + 1)" "(of_int (- (b + 1)) :: rat) < of_int (round x)"
    using assms by (simp_all add: abs_le_iff)
  then have "round x < b + 1" "- (b + 1) < round x"
    by (simp_all only: of_int_less_iff)
  then show ?thesis by simp
qed

lemma updateStats_shows:
  fixes n m :: nat and startR :: int
  assumes "0 < n" "n \<le> 2 ^ 42" "m \<le> 2 ^ 42" "\<bar>startR\<bar> < 2 ^ 52"
    and "length_value originalLength = of_nat n" "length_value summaryLength = of_nat m"
  shows "(of_int (round (percentage n m)) \<noteq> percentage n m + 1 / 2 \<longrightarrow>
            snd (updateStats wordCount (Some (of_int startR)) originalLength summaryLength)
              = Shows (round (percentage n m)))
       \<and> (snd (updateStats wordCount (Some (of_int startR)) originalLength summaryLength)
              = Shows (round (percentage n m))
          \<or> snd (updateStats wordCount (Some (of_int startR)) originalLength summaryLength)
              = Shows (round (percentage n m) - 1))"
proof -
  define N :: rat where "N = of_nat n"
  define M :: rat where "M = of_nat m"
  define x where "x = percentage n m"
  have N: "1 \<le> N" "N \<le> 2 ^ 42"
  proof -
    have "1 \<le> n" using assms(1) by simp
    then have "(of_nat 1 :: rat) \<le> of_nat n" by (simp only: of_nat_le_iff)
    then show "1 \<le> N" by (simp add: N_def)
    have "(of_nat n :: rat) \<le> of_nat (2 ^ 42)" using assms(2) by (simp only: of_nat_le_iff)
    then show "N \<le> 2 ^ 42" by (simp add: N_def)
  qed
  have M: "0 \<le> M" "M \<le> 2 ^ 42"
  proof -
    show "0 \<le> M" by (simp add: M_def)
    have "(of_nat m :: rat) \<le> of_nat (2 ^ 42)" using assms(3) by (simp only: of_nat_le_iff)
    then show "M \<le> 2 ^ 42" by (simp add: M_def)
  qed
  have x: "x = (1 - M / N) * 100" by (simp add: x_def percentage_def N_def M_def)
  obtain p where p: "ratio N M = Some (Math_round p)"
    and near: "N * \<bar>p - x\<bar> < 1 / 2"
    using ratio_error [OF N M] unfolding x by blast
  define c where "c = 2 * int n"
  define z where "z = 200 * (int n - int m) + int n"
  have c: "0 < c" using assms(1) by (simp add: c_def)
  have C: "(of_int c :: rat) = 2 * N" by (simp add: c_def N_def)
  have z: "of_int c * (x + 1 / 2) = of_int z"
  proof -
    have "2 * N * ((1 - M / N) * 100 + 1 / 2) = 200 * (N - M) + N"
      using N(1) by (simp add: field_simps)
    moreover have "(of_int z :: rat) = 200 * (N - M) + N"
      by (simp add: z_def N_def M_def)
    ultimately show ?thesis by (simp only: C x)
  qed
  have near': "of_int c * \<bar>p - x\<bar> < 1" using near by (simp add: C)
  define r where "r = Math_round p"
  note R = Math_round_near [OF c z near', folded r_def]
  have xb: "\<bar>x\<bar> \<le> of_int (100 + 100 * 2 ^ 42)"
  proof -
    have "M / N \<le> M / 1" using N(1) M(1) by (intro divide_left_mono) simp_all
    then have t: "0 \<le> M / N" "M / N \<le> 2 ^ 42" using M N(1) by simp_all
    define t where "t = M / N"
    have "\<bar>(1 - t) * 100\<bar> \<le> 100 + 100 * 2 ^ 42"
      using t unfolding t_def [symmetric] by (simp add: abs_le_iff algebra_simps)
    then show ?thesis unfolding x t_def by simp
  qed
  have rb: "\<bar>r\<bar> < 2 ^ 52"
    using round_bound [OF xb] R(1) by auto
  have len: "length_value originalLength = N" "length_value summaryLength = M"
    using assms(5,6) by (simp_all add: N_def M_def)
  have shown: "snd (updateStats wordCount (Some (of_int startR)) originalLength summaryLength)
      = Shows r"
    using N(1) animateNumber_last_exact [OF assms(4) rb]
    by (simp add: updateStats_def len p r_def [symmetric] shows_number_def)
  show ?thesis
    unfolding shown x_def [symmetric] using R by blast
qed

subsection \<open>Evaluation\<close>

lemma floor_rat_numeral:
  "\<lfloor>numeral a / numeral b :: rat\<rfloor> = numeral a div numeral b"
  by (metis floor_divide_of_int_eq of_int_numeral)

lemma pow2_less_cancel: "pow2 i < pow2 j \<Longrightarrow> i < j"
  using pow2_mono [of j i] by (cases "i < j") simp_all

lemma exponent_eqI:
  assumes "pow2 e \<le> x" "x < pow2 (e + 1)"
  shows "exponent x = e"
proof -
  have x: "0 < x" using assms(1) pow2_pos [of e] by linarith
  note b = exponent_bounds [OF x]
  have "pow2 (exponent x) < pow2 (e + 1)" using b(1) assms(2) by linarith
  then have "exponent x < e + 1" by (rule pow2_less_cancel)
  moreover have "pow2 e < pow2 (exponent x + 1)" using b(2) assms(1) by linarith
  then have "e < exponent x + 1" by (rule pow2_less_cancel)
  ultimately show ?thesis by simp
qed

lemma double_eval:
  assumes "pow2 e \<le> \<bar>x\<bar>" "\<bar>x\<bar> < pow2 (e + 1)" "- 1022 \<le> e"
    and "of_int (round_half_even (x / pow2 (e - 52))) * pow2 (e - 52) = y"
    and "\<bar>y\<bar> < pow2 1024"
  shows "double x = Some y"
proof -
  have "0 < \<bar>x\<bar>" using assms(1) pow2_pos [of e] by linarith
  then have "x \<noteq> 0" by simp
  then have "binary64 x = y"
    using assms(3,4) by (simp add: binary64_def exponent_eqI [OF assms(1,2)] Let_def)
  then show ?thesis using assms(5) by (simp add: double_def)
qed

lemma ratio_40_17: "ratio 40 17 = Some 57"
proof -
  have q: "double (17 / 40) = Some (7656119366529843 / 18014398509481984)"
    by (rule double_eval [where e = "- 2"])
      (simp_all add: pow2_def round_half_even_def Let_def floor_rat_numeral)
  have d: "double (1 - 7656119366529843 / 18014398509481984)
      = Some (2589569785738035 / 4503599627370496)"
    by (rule double_eval [where e = "- 1"])
      (simp_all add: pow2_def round_half_even_def Let_def floor_rat_numeral)
  have p: "double (2589569785738035 / 4503599627370496 * 100)
      = Some (8092405580431359 / 140737488355328)"
    by (rule double_eval [where e = 5])
      (simp_all add: pow2_def round_half_even_def Let_def floor_rat_numeral)
  have r: "Math_round (8092405580431359 / 140737488355328) = 57"
    by (simp add: Math_round_def floor_rat_numeral)
  have z: "(40::rat) \<noteq> 0" by simp
  show ?thesis
    by (simp only: ratio_def z if_False q d p r Option.bind.simps)
qed


text \<open>
  Claim C8, as stated: the displayed ratio is \<open>(1 - summary / original) * 100\<close>, rounded.  It
  fails for 40 and 17 words.  The percentage is 57.5, which rounding to the nearest integer
  takes to 58, whatever it does at a tie otherwise; the quotient, the difference and the
  product of line 462 are rounded to binary64 values, the product is
  57.49999999999999\<dots>, and the element shows 57.
\<close>

theorem ratio_rounding_error:
  "length_value (Number 40) = of_nat 40 \<and> length_value (Number 17) = of_nat 17
   \<and> percentage 40 17 = 115 / 2
   \<and> round (percentage 40 17) = 58
   \<and> ratio 40 17 = Some 57
   \<and> snd (updateStats None (Some 0) (Number 40) (Number 17)) = Shows 57"
proof -
  have a: "percentage 40 17 = 115 / 2" by (simp add: percentage_def)
  have b: "round (percentage 40 17) = 58" unfolding a by (simp add: round_def floor_rat_numeral)
  have l: "animateNumber_last (of_int 0) (Some (of_int 57)) = Some 57"
    by (rule animateNumber_last_exact) simp_all
  have "snd (updateStats None (Some 0) (Number 40) (Number 17)) = Shows 57"
    using l by (simp add: updateStats_def length_value_def ratio_40_17 shows_number_def)
  then show ?thesis using a b ratio_40_17 by (simp add: length_value_def)
qed

text \<open>
  Claim C8, amended.  Let the two lengths be word counts of at most \<open>2\<^sup>4\<^sup>2\<close>, the original
  one positive, given as numbers or as texts, and let the element show an integer below
  \<open>2\<^sup>5\<^sup>2\<close> in absolute value before.  When the animation is over the element shows
  \<open>(1 - summary / original) * 100\<close> rounded to the nearest integer, unless that percentage
  is half-way between two integers: then it shows the larger of the two or the smaller
  one.  For 100 and 30 words it shows 70.
\<close>

theorem displayed_ratio:
  fixes n m :: nat and startR :: int
  assumes "0 < n" "n \<le> 2 ^ 42" "m \<le> 2 ^ 42" "\<bar>startR\<bar> < 2 ^ 52"
    and "length_value originalLength = of_nat n" "length_value summaryLength = of_nat m"
  shows "(of_int (round (percentage n m)) \<noteq> percentage n m + 1 / 2 \<longrightarrow>
            snd (updateStats wordCount (Some (of_int startR)) originalLength summaryLength)
              = Shows (round (percentage n m)))
       \<and> (snd (updateStats wordCount (Some (of_int startR)) originalLength summaryLength)
              = Shows (round (percentage n m))
          \<or> snd (updateStats wordCount (Some (of_int startR)) originalLength summaryLength)
              = Shows (round (percentage n m) - 1))
       \<and> snd (updateStats wordCount (Some (of_int startR)) (Number 100) (Number 30))
              = Shows 70"
proof -
  have l: "length_value (Number 100) = of_nat 100" "length_value (Number 30) = of_nat 30"
    by (simp_all add: length_value_def)
  have p: "percentage 100 30 = 70" by (simp add: percentage_def)
  have r: "round (percentage 100 30) = 70" unfolding p by simp
  have "snd (updateStats wordCount (Some (of_int startR)) (Number 100) (Number 30)) = Shows 70"
    using updateStats_shows [OF _ _ _ assms(4) l, of wordCount] r p by simp
  then show ?thesis
    using updateStats_shows [OF assms, of wordCount] by blast
qed

theorem displayed_ratio_witness:
  "(0::nat) < 100 \<and> (100::nat) \<le> 2 ^ 42 \<and> (30::nat) \<le> 2 ^ 42 \<and> \<bar>0::int\<bar> < 2 ^ 52
   \<and> length_value (Number 100) = of_nat 100 \<and> length_value (Number 30) = of_nat 30
   \<and> percentage 100 30 = 70
   \<and> snd (updateStats None (Some (of_int 0)) (Number 100) (Number 30)) = Shows 70
   \<and> length_value (Text ''a b  c d'') = of_nat 4 \<and> length_value (Text '' x '') = of_nat 1
   \<and> percentage 4 1 = 75
   \<and> snd (updateStats None (Some (of_int 12)) (Text ''a b  c d'') (Text '' x '')) = Shows 75
   \<and> percentage 40 17 + 1 / 2 = of_int (round (percentage 40 17))
   \<and> (snd (updateStats None (Some (of_int 0)) (Number 40) (Number 17)) = Shows 58
        \<or> snd (updateStats None (Some (of_int 0)) (Number 40) (Number 17)) = Shows 57)"
proof -
  have l: "length_value (Number 100) = of_nat 100" "length_value (Number 30) = of_nat 30"
    "length_value (Number 40) = of_nat 40" "length_value (Number 17) = of_nat 17"
    by (simp_all add: length_value_def)
  have t: "length_value (Text ''a b  c d'') = of_nat 4" "length_value (Text '' x '') = of_nat 1"
    by code_simp+
  have p: "percentage 100 30 = 70" "percentage 4 1 = 75" "percentage 40 17 = 115 / 2"
    by (simp_all add: percentage_def)
  have r: "round (percentage 100 30) = 70" "round (percentage 4 1) = 75"
    "round (percentage 40 17) = 58"
    unfolding p by (simp_all add: round_def floor_rat_numeral)
  have b: "(0::nat) < 100" "(100::nat) \<le> 2 ^ 42" "(30::nat) \<le> 2 ^ 42" "\<bar>0::int\<bar> < 2 ^ 52"
    "(0::nat) < 4" "(4::nat) \<le> 2 ^ 42" "(1::nat) \<le> 2 ^ 42" "\<bar>12::int\<bar> < 2 ^ 52"
    "(0::nat) < 40" "(40::nat) \<le> 2 ^ 42" "(17::nat) \<le> 2 ^ 42"
    by simp_all
  have A: "snd (updateStats None (Some (of_int 0)) (Number 100) (Number 30)) = Shows 70"
    using displayed_ratio [OF b(1,2,3,4) l(1,2), of None] r p by simp
  have B: "snd (updateStats None (Some (of_int 12)) (Text ''a b  c d'') (Text '' x '')) = Shows 75"
    using displayed_ratio [OF b(5,6,7,8) t, of None] r p by simp
  have C: "snd (updateStats None (Some (of_int 0)) (Number 40) (Number 17)) = Shows 58
        \<or> snd (updateStats None (Some (of_int 0)) (Number 40) (Number 17)) = Shows 57"
    using displayed_ratio [OF b(9,10,11,4) l(3,4), of None] r p by simp
  show ?thesis
    using A B C l(1,2) t p r b(1-4) by simp
qed

section \<open>The log of a group\<close>

lemma calls_settle [simp]: "calls (settle x p) = calls p @ [Settle x]"
  by (simp add: settle_def)

lemma calls_ui_event [simp]: "calls (apply_ui_event e p) = calls p"
  by (cases e) simp_all

lemma calls_ui_events [simp]: "calls (ui_events es p) = calls p"
  unfolding ui_events_def by (induction es arbitrary: p) simp_all

lemma start_events_Nil [simp]: "start_events [] outs = []"
  by (simp add: start_events_def)

lemma start_events_Cons [simp]:
  "start_events (x # xs) (r # rs) =
     (if Option.is_none r then Fetch x else Settle x) # start_events xs rs"
  by (simp add: start_events_def)

lemma start_all_calls:
  assumes "\<And>x q. calls (snd (start x q))
             = calls q @ (if Option.is_none (fst (start x q)) then [Fetch x] else [])"
  shows "length (fst (start_all start batch p)) = length batch
    \<and> calls (snd (start_all start batch p))
        = calls p @ start_events batch (fst (start_all start batch p))"
proof (induction batch arbitrary: p)
  case Nil
  show ?case by simp
next
  case (Cons x xs)
  obtain r p1 where s: "start x p = (r, p1)" by (cases "start x p")
  let ?p1 = "case r of None \<Rightarrow> p1 | Some _ \<Rightarrow> settle x p1"
  obtain rs p2 where t: "start_all start xs ?p1 = (rs, p2)" by (cases "start_all start xs ?p1")
  have c1: "calls p1 = calls p @ (if Option.is_none r then [Fetch x] else [])"
    using assms [of x p] s by simp
  have c2: "calls ?p1 = calls p @ [if Option.is_none r then Fetch x else Settle x]"
    using c1 by (cases r) simp_all
  from Cons.IH [of ?p1] t
  have ih: "length rs = length xs" "calls p2 = calls ?p1 @ start_events xs rs"
    by simp_all
  show ?case
    using s t ih c2 by simp
qed

lemma resume_all_calls:
  assumes "\<And>x r q. calls (snd (resume x r q)) = calls q"
  shows "calls (snd (resume_all resume env ks slots p))
        = calls p @ map (\<lambda>(k, x). Settle x) ks"
proof (induction ks arbitrary: slots p)
  case Nil
  show ?case by simp
next
  case (Cons kx ks)
  obtain k x where kx: "kx = (k, x)" by (cases kx)
  obtain r p1 where s: "resume x (response env x) p = (r, p1)"
    by (cases "resume x (response env x) p")
  have "calls p1 = calls p" using assms [of x "response env x" p] s by simp
  then show ?case
    using Cons.IH [of "slots[k := Some r]" "settle x p1"] kx s by simp
qed

lemma run_group_calls:
  assumes "\<And>x q. calls (snd (start x q))
             = calls q @ (if Option.is_none (fst (start x q)) then [Fetch x] else [])"
    and "\<And>x r q. calls (snd (resume x r q)) = calls q"
  shows "calls (snd (run_group start resume env es batch p))
        = calls p @ group_log env batch (fst (start_all start batch p))"
proof -
  obtain outs p1 where s: "start_all start batch p = (outs, p1)"
    by (cases "start_all start batch p")
  have c1: "calls p1 = calls p @ start_events batch outs"
    using start_all_calls [of start batch p, OF assms(1)] s by simp
  let ?ks = "completion_order env (pending batch outs)"
  obtain slots p2 where t: "resume_all resume env ?ks outs (ui_events es p1) = (slots, p2)"
    by (cases "resume_all resume env ?ks outs (ui_events es p1)")
  have "calls p2 = calls (ui_events es p1) @ map (\<lambda>(k, x). Settle x) ?ks"
    using resume_all_calls [of resume env ?ks outs "ui_events es p1", OF assms(2)] t by simp
  then show ?thesis
    using s t c1 by (simp add: run_group_def group_log_def)
qed

lemma length_start_events [simp]:
  "length (start_events batch outs) = min (length batch) (length outs)"
  by (simp add: start_events_def)

lemma pending_items_aux:
  "map snd (map fst (filter (\<lambda>(_, r). Option.is_none r) (zip (enumerate n batch) outs)))
   = map fst (filter (\<lambda>(x, r). Option.is_none r) (zip batch outs))"
proof (induction batch arbitrary: n outs)
  case Nil
  show ?case by simp
next
  case (Cons x xs)
  show ?case
  proof (cases outs)
    case Nil
    then show ?thesis by simp
  next
    case (Cons r rs)
    then show ?thesis using Cons.IH [of "Suc n" rs] by simp
  qed
qed

lemma pending_items:
  "map snd (pending batch outs) = map fst (filter (\<lambda>(x, r). Option.is_none r) (zip batch outs))"
  unfolding pending_def by (rule pending_items_aux)

lemma called_start_events:
  "map fst (filter (\<lambda>(x, e). e = Fetch x) (zip g (start_events g outs)))
   = map fst (filter (\<lambda>(x, r). Option.is_none r) (zip g outs))"
proof (induction g arbitrary: outs)
  case Nil
  show ?case by simp
next
  case (Cons x xs)
  show ?case
  proof (cases outs)
    case Nil
    then show ?thesis by (simp add: start_events_def)
  next
    case (Cons r rs)
    then show ?thesis using Cons.IH [of rs] by simp
  qed
qed

lemma list_all2_start_events:
  "length outs = length g \<Longrightarrow>
   list_all2 (\<lambda>x e. e = Fetch x \<or> e = Settle x) g (start_events g outs)"
proof (induction g arbitrary: outs)
  case Nil
  then show ?case by simp
next
  case (Cons x xs)
  then obtain r rs where "outs = r # rs" "length rs = length xs"
    by (cases outs) auto
  then show ?case using Cons.IH [of rs] by simp
qed

lemma mset_completion_settles:
  "mset (map (\<lambda>(k, x). Settle x) (completion_order env ps)) = mset (map Settle (map snd ps))"
proof -
  have "(\<lambda>(k, x). Settle x) = Settle \<circ> (snd :: nat \<times> item \<Rightarrow> item)"
    by (auto simp: fun_eq_iff)
  then show ?thesis
    by (simp add: completion_order_def)
qed

lemma length_completion_order [simp]: "length (completion_order env ps) = length ps"
  by (simp add: completion_order_def)

lemma grouped_group_log:
  assumes "0 < n" "items \<noteq> []" "length outs = length (take n items)"
  shows "grouped n items (group_log env (take n items) outs @ rest)
         = grouped n (drop n items) rest"
proof -
  let ?g = "take n items"
  let ?S = "start_events ?g outs"
  let ?T = "map (\<lambda>(k, x). Settle x) (completion_order env (pending ?g outs))"
  have lS: "length ?S = length ?g" using assms(3) by simp
  have called: "map fst (filter (\<lambda>(x, e). e = Fetch x) (zip ?g ?S)) = map snd (pending ?g outs)"
    by (simp add: called_start_events pending_items)
  have lT: "length ?T = length (map snd (pending ?g outs))" by simp
  have tk: "take (length ?g) (group_log env ?g outs @ rest) = ?S"
    using lS by (simp add: group_log_def)
  have dr: "drop (length ?g) (group_log env ?g outs @ rest) = ?T @ rest"
    using lS by (simp add: group_log_def)
  have dr2: "drop (length ?g + length (map snd (pending ?g outs)))
               (group_log env ?g outs @ rest) = rest"
    using lS lT by (simp add: group_log_def)
  have tk2: "take (length (map snd (pending ?g outs))) (?T @ rest) = ?T"
    using lT by simp
  show ?thesis
    apply (subst grouped.simps)
    using assms(1,2) lS list_all2_start_events [OF assms(3)]
      mset_completion_settles [of env "pending ?g outs"]
    apply (simp only: Let_def tk dr called tk2 dr2)
    apply simp
    done
qed

lemma start_all_results:
  assumes "\<And>x q r. fst (start x q) = Some r \<Longrightarrow> P r"
  shows "Some r \<in> set (fst (start_all start batch p)) \<Longrightarrow> P r"
proof (induction batch arbitrary: p)
  case Nil
  then show ?case by simp
next
  case (Cons x xs)
  obtain r1 p1 where s: "start x p = (r1, p1)" by (cases "start x p")
  let ?p1 = "case r1 of None \<Rightarrow> p1 | Some _ \<Rightarrow> settle x p1"
  obtain rs p2 where t: "start_all start xs ?p1 = (rs, p2)" by (cases "start_all start xs ?p1")
  from Cons.prems s t have "Some r = r1 \<or> Some r \<in> set rs" by auto
  then show ?case
  proof
    assume "Some r = r1"
    then show ?thesis using assms [of x p r] s by simp
  next
    assume "Some r \<in> set rs"
    then show ?thesis using Cons.IH [of ?p1] t by simp
  qed
qed

lemma resume_all_results:
  assumes "\<And>x r q. P (fst (resume x r q))"
    and "\<And>r. Some r \<in> set slots \<Longrightarrow> P r"
  shows "Some r \<in> set (fst (resume_all resume env ks slots p)) \<Longrightarrow> P r"
  using assms(2)
proof (induction ks arbitrary: slots p)
  case Nil
  then show ?case by simp
next
  case (Cons kx ks)
  obtain k x where kx: "kx = (k, x)" by (cases kx)
  obtain r1 p1 where s: "resume x (response env x) p = (r1, p1)"
    by (cases "resume x (response env x) p")
  have P1: "P r1" using assms(1) [of x "response env x" p] s by simp
  have "\<And>r'. Some r' \<in> set (slots[k := Some r1]) \<Longrightarrow> P r'"
  proof -
    fix r' assume "Some r' \<in> set (slots[k := Some r1])"
    then have "Some r' \<in> insert (Some r1) (set slots)"
      using set_update_subset_insert [of slots k "Some r1"] by blast
    then show "P r'" using P1 Cons.prems(2) by auto
  qed
  then show ?case
    using Cons.IH [of "slots[k := Some r1]" "settle x p1"] Cons.prems(1) kx s by simp
qed

lemma set_map_filter_id: "set (List.map_filter (\<lambda>r. r) slots) = {r. Some r \<in> set slots}"
  by (induction slots) (auto simp: List.map_filter_simps split: option.splits)

lemma run_group_results:
  assumes "\<And>x q r. fst (start x q) = Some r \<Longrightarrow> P r"
    and "\<And>x r q. P (fst (resume x r q))"
  shows "r \<in> set (fst (run_group start resume env es batch p)) \<Longrightarrow> P r"
proof -
  assume a: "r \<in> set (fst (run_group start resume env es batch p))"
  obtain outs p1 where s: "start_all start batch p = (outs, p1)"
    by (cases "start_all start batch p")
  let ?ks = "completion_order env (pending batch outs)"
  obtain slots p2 where t: "resume_all resume env ?ks outs (ui_events es p1) = (slots, p2)"
    by (cases "resume_all resume env ?ks outs (ui_events es p1)")
  have o: "\<And>r. Some r \<in> set outs \<Longrightarrow> P r"
    using start_all_results [of start P _ batch p, OF assms(1)] s by simp
  from a s t have "Some r \<in> set slots"
    by (simp add: run_group_def set_map_filter_id)
  then show "P r"
    using resume_all_results [of P resume outs r env ?ks "ui_events es p1", OF assms(2) o] t
    by simp
qed

lemma promise_all_Inr:
  "(\<And>r. r \<in> set rs \<Longrightarrow> \<exists>v. r = Inr v) \<Longrightarrow> \<exists>vs. promise_all rs = Inr vs"
proof (induction rs)
  case Nil
  show ?case by simp
next
  case (Cons r rs)
  from Cons.prems [of r] obtain v where r: "r = Inr v" by auto
  from Cons.IH Cons.prems obtain vs where "promise_all rs = Inr vs" by auto
  then show ?case using r by simp
qed

lemma calls_updateFileStatus [simp]: "calls (updateFileStatus x st pr p) = calls p"
  by (simp add: updateFileStatus_def Let_def split: option.splits)

lemma calls_process_catch [simp]: "calls (process_catch x e p) = calls p"
  by (cases e) (simp add: process_catch_def)

lemma uploadFile_resume_Inr:
  "upload_data r = Inr d \<Longrightarrow>
   uploadFile_resume x r p = (Inr d, updateFileStatus x ''Completed'' (Some 100) p)"
  by (simp add: uploadFile_resume_def)

lemma uploadFile_resume_Inl:
  "upload_data r = Inl (Error m) \<Longrightarrow>
   uploadFile_resume x r p = (Inl (Error m), updateFileStatus x (''Error: '' @ m) (Some 0) p)"
  by (simp add: uploadFile_resume_def)

lemma process_resume_Inr:
  "upload_data r = Inr d \<Longrightarrow>
   process_resume x r p =
     (Inr (), (updateFileStatus x ''Completed'' (Some 100) p)
                \<lparr>successCount := successCount p + 1\<rparr>)"
  by (simp add: process_resume_def uploadFile_resume_Inr updateFileStatus_def Let_def)

lemma process_resume_Inl:
  "upload_data r = Inl (Error m) \<Longrightarrow>
   process_resume x r p = (Inr (), updateFileStatus x (''Error: '' @ m) (Some 0) p)"
  by (simp add: process_resume_def uploadFile_resume_Inl process_catch_def
      updateFileStatus_def Let_def)

lemma upload_data_cases:
  obtains d where "upload_data r = Inr d" | m where "upload_data r = Inl (Error m)"
proof (cases "upload_data r")
  case (Inl e)
  then show ?thesis using that(2) by (cases e) auto
next
  case (Inr d)
  then show ?thesis using that(1) by auto
qed

lemma process_resume_calls: "calls (snd (process_resume x r q)) = calls q"
  by (cases r rule: upload_data_cases) (simp_all add: process_resume_Inr process_resume_Inl)

lemma process_resume_fulfils: "fst (process_resume x r q) = Inr ()"
  by (cases r rule: upload_data_cases) (simp_all add: process_resume_Inr process_resume_Inl)

lemma process_start_calls:
  "calls (snd (process_start x q))
   = calls q @ (if Option.is_none (fst (process_start x q)) then [Fetch x] else [])"
  by (simp add: process_start_def uploadFile_start_def fetch_def split: option.splits)

lemma process_start_fulfils: "fst (process_start x q) = Some r \<Longrightarrow> r = Inr ()"
  by (simp add: process_start_def split: option.splits)

lemma process_group_never_rejects:
  "\<exists>vs. promise_all (fst (run_group process_start process_resume env es batch p)) = Inr vs"
proof (rule promise_all_Inr)
  fix r assume "r \<in> set (fst (run_group process_start process_resume env es batch p))"
  then have "r = Inr ()"
    using run_group_results [of process_start "\<lambda>r. r = Inr ()" process_resume r env es batch p]
      process_start_fulfils process_resume_fulfils by blast
  then show "\<exists>v. r = Inr v" by blast
qed

lemma grouped_Nil [simp]: "grouped n [] tr \<longleftrightarrow> tr = []"
  by (simp add: grouped.simps [of n "[]" tr])

section \<open>The log of the process loop, and the calls in flight\<close>

lemma process_loop_calls:
  "fst (process_loop env items i p) = Inr ()
   \<and> (\<exists>tr. calls (snd (process_loop env items i p)) = calls p @ tr
          \<and> grouped 3 (drop i items) tr)"
proof (induction env items i p rule: process_loop.induct)
  case (1 env items i p)
  show ?case
  proof (cases "i < length items")
    case False
    then show ?thesis by (simp add: process_loop.simps [of env items i p])
  next
    case True
    let ?g = "take 3 (drop i items)"
    let ?es = "during env (i div 3)"
    obtain rs p1 where g: "run_group process_start process_resume env ?es ?g p = (rs, p1)"
      by (cases "run_group process_start process_resume env ?es ?g p")
    obtain vs where vs: "promise_all rs = Inr vs"
      using process_group_never_rejects [of env ?es ?g p] g by auto
    let ?outs = "fst (start_all process_start ?g p)"
    have c1: "calls p1 = calls p @ group_log env ?g ?outs"
      using run_group_calls [of process_start process_resume env ?es ?g p,
          OF process_start_calls process_resume_calls] g by simp
    have lo: "length ?outs = length ?g"
      using start_all_calls [of process_start ?g p, OF process_start_calls] by simp
    from "1.IH" [OF True g [symmetric] vs]
    obtain tr where ih: "fst (process_loop env items (i + 3) p1) = Inr ()"
      "calls (snd (process_loop env items (i + 3) p1)) = calls p1 @ tr"
      "grouped 3 (drop (i + 3) items) tr"
      by auto
    have eq: "process_loop env items i p = process_loop env items (i + 3) p1"
      using True g vs by (simp add: process_loop.simps [of env items i p])
    have ne: "drop i items \<noteq> []" using True by simp
    have "grouped 3 (drop i items) (group_log env ?g ?outs @ tr)"
      using grouped_group_log [of 3 "drop i items" ?outs env tr] ne lo ih(3)
      by (simp add: add.commute)
    then show ?thesis
      using eq ih c1 by auto
  qed
qed

lemma flight_append: "flight fl (es1 @ es2) = flight (flight fl es1) es2"
proof (induction es1 arbitrary: fl)
  case Nil
  show ?case by simp
next
  case (Cons e es)
  then show ?case by (cases e) simp_all
qed

lemma flight_length_le: "length (flight fl es) \<le> length fl + length es"
proof (induction es arbitrary: fl)
  case Nil
  show ?case by simp
next
  case (Cons e es)
  show ?case
  proof (cases e)
    case (Fetch x)
    then show ?thesis using Cons.IH [of "x # fl"] by simp
  next
    case (Settle x)
    have "length (remove1 x fl) \<le> length fl"
      by (simp add: length_remove1)
    then show ?thesis using Cons.IH [of "remove1 x fl"] Settle by simp
  qed
qed

lemma flight_settles:
  "(\<And>e. e \<in> set T \<Longrightarrow> \<exists>x. e = Settle x) \<Longrightarrow>
   mset (flight fl T) = mset fl - mset (map item_of T)"
proof (induction T arbitrary: fl)
  case Nil
  show ?case by simp
next
  case (Cons e T)
  from Cons.prems [of e] obtain x where e: "e = Settle x" by auto
  have "mset (flight (remove1 x fl) T) = mset (remove1 x fl) - mset (map item_of T)"
    using Cons.IH [of "remove1 x fl"] Cons.prems by simp
  then show ?case using e by simp
qed

lemma flight_starts:
  "list_all2 (\<lambda>x e. e = Fetch x \<or> e = Settle x) g S \<Longrightarrow>
   mset (flight fl S) \<subseteq># mset fl + mset (map fst (filter (\<lambda>(x, e). e = Fetch x) (zip g S)))"
proof (induction g S arbitrary: fl rule: list_all2_induct)
  case Nil
  show ?case by simp
next
  case (Cons x g e S)
  from Cons.hyps(1) show ?case
  proof
    assume e: "e = Fetch x"
    show ?thesis using Cons.IH [of "x # fl"] e by simp
  next
    assume e: "e = Settle x"
    have "mset (remove1 x fl) \<subseteq># mset fl" by simp
    then have "mset (remove1 x fl) + mset (map fst (filter (\<lambda>(x, e). e = Fetch x) (zip g S)))
        \<subseteq># mset fl + mset (map fst (filter (\<lambda>(x, e). e = Fetch x) (zip g S)))"
      by (rule mset_subset_eq_mono_add) simp
    then show ?thesis using Cons.IH [of "remove1 x fl"] e
      by (auto intro: subset_mset.order_trans)
  qed
qed

lemma settles_of_mset:
  assumes "mset T = mset (map Settle ys)"
  shows "(\<forall>e \<in> set T. \<exists>x. e = Settle x) \<and> mset (map item_of T) = mset ys"
proof -
  have "set T = Settle ` set ys"
    using assms mset_eq_setD [of T "map Settle ys"] by simp
  then have a: "\<forall>e \<in> set T. \<exists>x. e = Settle x" by auto
  have "mset (map item_of T) = image_mset item_of (mset T)" by simp
  also have "\<dots> = image_mset item_of (image_mset Settle (mset ys))" using assms by simp
  also have "\<dots> = mset ys" by (simp add: multiset.map_comp comp_def)
  finally show ?thesis using a by simp
qed

lemma flight_settles_length:
  assumes "\<And>e. e \<in> set T \<Longrightarrow> \<exists>x. e = Settle x"
  shows "length (flight fl T) \<le> length fl"
proof -
  have "size (mset fl - mset (map item_of T)) \<le> size (mset fl)"
    by (rule size_mset_mono) (rule diff_subset_eq_self)
  then have "size (mset (flight fl T)) \<le> size (mset fl)"
    using flight_settles [of T fl] assms by simp
  then show ?thesis by simp
qed

lemma take_append_cases:
  "take k (A @ B) = (if k \<le> length A then take k A else A @ take (k - length A) B)"
  by simp

lemma flight_group:
  assumes "list_all2 (\<lambda>x e. e = Fetch x \<or> e = Settle x) g S"
    and "mset T = mset (map Settle (map fst (filter (\<lambda>(x, e). e = Fetch x) (zip g S))))"
  shows "flight [] (S @ T) = []" and "length (flight [] (take k (S @ T))) \<le> length g"
proof -
  define called where "called = map fst (filter (\<lambda>(x, e). e = Fetch x) (zip g S))"
  have T: "\<And>e. e \<in> set T \<Longrightarrow> \<exists>x. e = Settle x" "mset (map item_of T) = mset called"
    using settles_of_mset [of T called] assms(2) by (auto simp: called_def)
  have sub: "mset (flight [] S) \<subseteq># mset called"
    using flight_starts [OF assms(1), of "[]"] by (simp add: called_def)
  have "mset (flight [] (S @ T)) = mset (flight [] S) - mset called"
    using flight_settles [of T "flight [] S"] T by (simp add: flight_append)
  also have "\<dots> = {#}" using sub by (simp add: Diff_eq_empty_iff_mset)
  finally show "flight [] (S @ T) = []" by simp
  have lS: "length S = length g" using assms(1) by (simp add: list_all2_lengthD)
  have T': "\<And>e. e \<in> set (take (k - length S) T) \<Longrightarrow> \<exists>x. e = Settle x"
    using T(1) by (meson in_set_takeD)
  have "take k (S @ T) = take k S @ take (k - length S) T" by simp
  then have "flight [] (take k (S @ T))
      = flight (flight [] (take k S)) (take (k - length S) T)"
    by (simp only: flight_append)
  then have "length (flight [] (take k (S @ T))) \<le> length (flight [] (take k S))"
    using flight_settles_length [of "take (k - length S) T" "flight [] (take k S)"] T'
    by simp
  also have "\<dots> \<le> length (take k S)"
    using flight_length_le [of "[]" "take k S"] by simp
  also have "\<dots> \<le> length g" using lS by simp
  finally show "length (flight [] (take k (S @ T))) \<le> length g" .
qed

lemma flight_two_parts:
  assumes "flight [] A = []" "\<And>k. length (flight [] (take k A)) \<le> n"
    and "flight [] B = []" "\<And>k. length (flight [] (take k B)) \<le> n"
  shows "flight [] (A @ B) = []" and "length (flight [] (take k (A @ B))) \<le> n"
proof -
  show "flight [] (A @ B) = []" by (simp add: flight_append assms(1,3))
  show "length (flight [] (take k (A @ B))) \<le> n"
  proof (cases "k \<le> length A")
    case True
    then show ?thesis using assms(2) [of k] by simp
  next
    case False
    then have "take k (A @ B) = A @ take (k - length A) B" by simp
    then have "flight [] (take k (A @ B)) = flight [] (take (k - length A) B)"
      by (simp only: flight_append assms(1))
    then show ?thesis using assms(4) [of "k - length A"] by simp
  qed
qed

lemma grouped_flight:
  "grouped n items tr \<Longrightarrow> flight [] tr = [] \<and> (\<forall>k. length (flight [] (take k tr)) \<le> n)"
proof (induction n items tr rule: grouped.induct)
  case (1 n items tr)
  show ?case
  proof (cases "items = [] \<or> n = 0")
    case True
    then have "tr = []" using "1.prems" by (simp add: grouped.simps [of n items tr])
    then show ?thesis by simp
  next
    case False
    define g where "g = take n items"
    define S where "S = take (length g) tr"
    define called where "called = map fst (filter (\<lambda>(x, e). e = Fetch x) (zip g S))"
    define T where "T = take (length called) (drop (length g) tr)"
    define rest where "rest = drop (length g + length called) tr"
    from "1.prems" False have "length S = length g
      \<and> list_all2 (\<lambda>x e. e = Fetch x \<or> e = Settle x) g S
      \<and> mset T = mset (map Settle called)
      \<and> grouped n (drop n items) rest"
      unfolding g_def S_def called_def T_def rest_def
      by (simp only: grouped.simps [of n items tr] Let_def if_False)
    then have gr: "length S = length g"
      "list_all2 (\<lambda>x e. e = Fetch x \<or> e = Settle x) g S"
      "mset T = mset (map Settle called)"
      "grouped n (drop n items) rest"
      by blast+
    have ih: "flight [] rest = []" "\<And>k. length (flight [] (take k rest)) \<le> n"
      using "1.IH" [OF False g_def S_def called_def T_def gr(4) [unfolded rest_def]]
      by (auto simp: rest_def)
    have "tr = S @ drop (length g) tr" by (simp add: S_def)
    moreover have "drop (length g) tr = T @ rest"
      unfolding T_def rest_def
      by (metis append_take_drop_id drop_drop add.commute)
    ultimately have tr: "tr = (S @ T) @ rest" by simp
    have "length g \<le> n" by (simp add: g_def)
    then have fg: "flight [] (S @ T) = []" "\<And>k. length (flight [] (take k (S @ T))) \<le> n"
      using flight_group [OF gr(2), of T] gr(3) by (auto simp: called_def intro: order_trans)
    have "flight [] ((S @ T) @ rest) = []"
      "\<And>k. length (flight [] (take k ((S @ T) @ rest))) \<le> n"
      using flight_two_parts [of "S @ T" n rest, OF fg ih] by blast+
    then have "flight [] tr = []" "\<And>k. length (flight [] (take k tr)) \<le> n"
      using tr by simp_all
    then show ?thesis by blast
  qed
qed

section \<open>The log of the two handlers\<close>

lemma calls_showError [simp]: "calls (showError m c p) = calls p"
  by (simp add: showError_def)

lemma calls_truncate [simp]: "calls (page.truncate q) = calls q"
  by (simp add: page.defs)

lemma calls_extend [simp]: "calls (page.extend p e) = calls p"
  by (simp add: page.defs)

lemma batch_start_calls:
  "calls (snd (batch_start x q))
   = calls q @ (if Option.is_none (fst (batch_start x q)) then [Fetch x] else [])"
  by (simp add: batch_start_def processFile_start_def fetch_def split: option.splits)

lemma process_data_cases:
  obtains d where "process_data r = Inr d" | m where "process_data r = Inl (Error m)"
proof (cases "process_data r")
  case (Inl e)
  then show ?thesis using that(2) by (cases e) auto
next
  case (Inr d)
  then show ?thesis using that(1) by auto
qed

lemma processFile_resume_Inr:
  "process_data r = Inr d \<Longrightarrow>
   processFile_resume x r p = (Inr d, updateFileStatus x ''Completed'' (Some 100) p)"
  by (simp add: processFile_resume_def)

lemma processFile_resume_Inl:
  "process_data r = Inl (Error m) \<Longrightarrow>
   processFile_resume x r p = (Inl (Error m), updateFileStatus x (''Error: '' @ m) (Some 0) p)"
  by (simp add: processFile_resume_def)

lemma processFile_resume_calls: "calls (snd (processFile_resume x r q)) = calls q"
  by (cases r rule: process_data_cases)
    (simp_all add: processFile_resume_Inr processFile_resume_Inl)

lemma batch_loop_calls:
  "\<exists>tr. calls (snd (batch_loop env items i results p)) = calls p @ tr
          \<and> grouped 3 (drop i items) tr"
proof (induction env items i results p rule: batch_loop.induct)
  case (1 env items i results p)
  show ?case
  proof (cases "i < length items")
    case False
    then show ?thesis by (simp add: batch_loop.simps [of env items i results p])
  next
    case True
    let ?g = "take maxConcurrent (drop i items)"
    let ?es = "during env (i div maxConcurrent)"
    obtain rs p1 where g: "run_group batch_start processFile_resume env ?es ?g p = (rs, p1)"
      by (cases "run_group batch_start processFile_resume env ?es ?g p")
    let ?outs = "fst (start_all batch_start ?g p)"
    have c1: "calls p1 = calls p @ group_log env ?g ?outs"
      using run_group_calls [of batch_start processFile_resume env ?es ?g p,
          OF batch_start_calls processFile_resume_calls] g by simp
    have lo: "length ?outs = length ?g"
      using start_all_calls [of batch_start ?g p, OF batch_start_calls] by simp
    from "1.IH" [OF True g [symmetric]]
    obtain tr where ih:
      "calls (snd (batch_loop env items (i + maxConcurrent) (results @ rs) p1)) = calls p1 @ tr"
      "grouped 3 (drop (i + maxConcurrent) items) tr"
      by auto
    have eq: "batch_loop env items i results p
        = batch_loop env items (i + maxConcurrent) (results @ rs) p1"
      using True g by (simp add: batch_loop.simps [of env items i results p])
    have ne: "drop i items \<noteq> []" using True by simp
    have "grouped 3 (drop i items) (group_log env ?g ?outs @ tr)"
      using grouped_group_log [of 3 "drop i items" ?outs env tr] ne lo ih(2)
      by (simp add: add.commute maxConcurrent_def)
    then show ?thesis
      using eq ih c1 by auto
  qed
qed

lemma processBtn_click_calls:
  "\<exists>tr. calls (processBtn_click env p) = calls p @ tr \<and> grouped 3 (selectedItems p) tr"
proof (cases "selectedItems p = []")
  case True
  then show ?thesis by (simp add: processBtn_click_def)
next
  case False
  let ?p0 = "page.extend (p\<lparr>processBtn_disabled := True\<rparr>) (process_run.fields 0)"
  obtain r p1 where l: "process_loop env (selectedItems p) 0 ?p0 = (r, p1)"
    by (cases "process_loop env (selectedItems p) 0 ?p0")
  from process_loop_calls [of env "selectedItems p" 0 ?p0] l
  obtain tr where tr: "r = Inr ()" "calls p1 = calls p @ tr" "grouped 3 (selectedItems p) tr"
    by auto
  have "calls (processBtn_click env p) = calls p1"
    using False l tr(1)
    by (simp add: processBtn_click_def processBtn_try_def processBtn_finish_def Let_def)
  then show ?thesis using tr by auto
qed

lemma summarize_batch_calls:
  "\<exists>tr. calls (snd (summarize_batch env items p)) = calls p @ tr \<and> grouped 3 items tr"
proof -
  obtain rs p1 where l: "batch_loop env items 0 [] p = (rs, p1)"
    by (cases "batch_loop env items 0 [] p")
  from batch_loop_calls [of env items 0 "[]" p] l
  obtain tr where tr: "calls p1 = calls p @ tr" "grouped 3 items tr" by auto
  have "calls (snd (summarize_batch env items p)) = calls p1"
    using l by (simp add: summarize_batch_def Let_def)
  then show ?thesis using tr by auto
qed

lemma summarizeBtn_click_batch_calls:
  assumes "targetLanguage p \<noteq> []" "activeTab p \<noteq> ''text''" "processInBatch p"
  shows "\<exists>tr. calls (summarizeBtn_click env p) = calls p @ tr \<and> grouped 3 (fileList p) tr"
proof (cases "fileList p = []")
  case True
  then show ?thesis using assms
    by (simp add: summarizeBtn_click_def summarize_try_def summarize_finish_def Let_def)
next
  case False
  let ?p0 = "p\<lparr>loading_hidden := False, summarizeBtn_disabled := True, outputText := []\<rparr>"
  obtain r p1 where l: "summarize_batch env (fileList p) ?p0 = (r, p1)"
    by (cases "summarize_batch env (fileList p) ?p0")
  from summarize_batch_calls [of env "fileList p" ?p0] l
  obtain tr where tr: "calls p1 = calls p @ tr" "grouped 3 (fileList p) tr" by auto
  have "calls (summarizeBtn_click env p) = calls p1"
    using False assms l
    by (simp add: summarizeBtn_click_def summarize_try_def summarize_finish_def Let_def
        split: sum.splits error.splits)
  then show ?thesis using tr by auto
qed

subsection \<open>Rows of calls\<close>

lemma group_sizes_step:
  assumes "0 < n" "0 < len"
  shows "group_sizes n len = min n len # group_sizes n (len - n)"
proof (cases "len < n")
  case True
  then show ?thesis using assms by (simp add: group_sizes_def)
next
  case False
  then have "len div n = Suc ((len - n) div n)" "len mod n = (len - n) mod n"
    using assms by (simp_all add: le_div_geq le_mod_geq)
  then show ?thesis using False by (simp add: group_sizes_def)
qed

lemma fetch_runs_calls: "fetch_runs k (map Fetch g @ es) = fetch_runs (k + length g) es"
  by (induction g arbitrary: k) simp_all

lemma fetch_runs_settles:
  assumes "\<forall>e \<in> set ss. \<exists>x. e = Settle x"
  shows "fetch_runs k (ss @ es)
    = (if k = 0 \<or> ss = [] then fetch_runs k es else k # fetch_runs 0 es)"
  using assms
proof (induction ss arbitrary: k)
  case Nil
  then show ?case by simp
next
  case (Cons e ss)
  then obtain x where e: "e = Settle x" by auto
  show ?case using Cons by (auto simp: e)
qed

lemma grouped_unfold:
  assumes "items \<noteq> []" "0 < n" "grouped n items tr"
  defines "g \<equiv> take n items"
  defines "starts \<equiv> take (length g) tr"
  defines "called \<equiv> map fst (filter (\<lambda>(x, e). e = Fetch x) (zip g starts))"
  defines "settles \<equiv> take (length called) (drop (length g) tr)"
  defines "rest \<equiv> drop (length g + length called) tr"
  shows "tr = starts @ settles @ rest"
    and "length starts = length g"
    and "list_all2 (\<lambda>x e. e = Fetch x \<or> e = Settle x) g starts"
    and "mset settles = mset (map Settle called)"
    and "grouped n (drop n items) rest"
proof -
  have G: "length starts = length g
      \<and> list_all2 (\<lambda>x e. e = Fetch x \<or> e = Settle x) g starts
      \<and> mset settles = mset (map Settle called)
      \<and> grouped n (drop n items) rest"
    using assms(1-3) grouped.simps [of n items tr]
    unfolding g_def starts_def called_def settles_def rest_def Let_def
    by simp
  then show "length starts = length g"
    "list_all2 (\<lambda>x e. e = Fetch x \<or> e = Settle x) g starts"
    "mset settles = mset (map Settle called)"
    "grouped n (drop n items) rest"
    by blast+
  have "drop (length g) tr = settles @ rest"
    unfolding settles_def rest_def
    by (metis add.commute append_take_drop_id drop_drop)
  then show "tr = starts @ settles @ rest"
    unfolding starts_def by (metis append_take_drop_id)
qed

lemma starts_fetch_item:
  assumes "list_all2 (\<lambda>x e. e = Fetch x \<or> e = Settle x) g starts" "Fetch y \<in> set starts"
  shows "y \<in> set g"
  using assms by (induction rule: list_all2_induct) auto

lemma starts_all_called:
  assumes "list_all2 (\<lambda>x e. e = Fetch x \<or> e = Settle x) g starts" "distinct g"
    "\<forall>x \<in> set g. Fetch x \<in> set starts"
  shows "starts = map Fetch g"
  using assms
proof (induction rule: list_all2_induct)
  case Nil
  then show ?case by simp
next
  case (Cons x g e starts)
  have nx: "Fetch x \<notin> set starts"
    using starts_fetch_item [OF Cons.hyps(2)] Cons.prems(1) by auto
  then have e: "e = Fetch x" using Cons.prems(2) by auto
  have "\<forall>y \<in> set g. Fetch y \<in> set starts"
    using Cons.prems e by auto
  then show ?case using Cons e by simp
qed

lemma settles_are_settles:
  assumes "mset settles = mset (map Settle called)" "e \<in> set settles"
  shows "\<exists>x. e = Settle x"
proof -
  have "e \<in># mset (map Settle called)" using assms by (metis set_mset_mset)
  then show ?thesis by auto
qed

lemma grouped_fetch_item:
  "grouped n items tr \<Longrightarrow> Fetch y \<in> set tr \<Longrightarrow> y \<in> set items"
proof (induction n items tr rule: grouped.induct)
  case (1 n items tr)
  show ?case
  proof (cases "items = [] \<or> n = 0")
    case True
    then show ?thesis using "1.prems" grouped.simps [of n items tr] by simp
  next
    case False
    then have ne: "items \<noteq> []" and n: "0 < n" by simp_all
    note u = grouped_unfold [OF ne n "1.prems"(1)]
    define g where "g = take n items"
    define starts where "starts = take (length g) tr"
    define called where "called = map fst (filter (\<lambda>(x, e). e = Fetch x) (zip g starts))"
    define settles where "settles = take (length called) (drop (length g) tr)"
    define rest where "rest = drop (length g + length called) tr"
    note u' = u [folded g_def, folded starts_def, folded called_def, folded settles_def rest_def]
    have "Fetch y \<in> set starts \<or> Fetch y \<in> set settles \<or> Fetch y \<in> set rest"
      using "1.prems"(2) u'(1) by (metis Un_iff set_append)
    then show ?thesis
    proof (elim disjE)
      assume "Fetch y \<in> set starts"
      then have "y \<in> set g" by (rule starts_fetch_item [OF u'(3)])
      then show ?thesis unfolding g_def by (rule in_set_takeD)
    next
      assume "Fetch y \<in> set settles"
      then show ?thesis using settles_are_settles [OF u'(4)] by blast
    next
      assume r: "Fetch y \<in> set rest"
      have "y \<in> set (drop n items)"
        using "1.IH" [OF False g_def starts_def called_def settles_def u'(5) [unfolded rest_def]]
          r [unfolded rest_def]
        by simp
      then show ?thesis by (rule in_set_dropD)
    qed
  qed
qed


lemma group_sizes_0 [simp]: "group_sizes n 0 = []"
  by (simp add: group_sizes_def)

lemma grouped_fetch_runs:
  "grouped n items tr \<Longrightarrow> 0 < n \<Longrightarrow> distinct items
    \<Longrightarrow> \<forall>x \<in> set items. Fetch x \<in> set tr
    \<Longrightarrow> fetch_runs 0 tr = group_sizes n (length items)"
proof (induction n items tr rule: grouped.induct)
  case (1 n items tr)
  note n = "1.prems"(2)
  show ?case
  proof (cases "items = []")
    case True
    then show ?thesis using "1.prems"(1) grouped.simps [of n items tr] by simp
  next
    case ne: False
    note u = grouped_unfold [OF ne n "1.prems"(1)]
    define g where "g = take n items"
    define starts where "starts = take (length g) tr"
    define called where "called = map fst (filter (\<lambda>(x, e). e = Fetch x) (zip g starts))"
    define settles where "settles = take (length called) (drop (length g) tr)"
    define rest where "rest = drop (length g + length called) tr"
    note u' = u [folded g_def, folded starts_def, folded called_def, folded settles_def rest_def]
    have dg: "distinct g" "distinct (drop n items)"
      and disj: "set g \<inter> set (drop n items) = {}"
      using "1.prems"(3) distinct_append [of "take n items" "drop n items"]
      by (simp_all add: g_def)
    have sett: "\<forall>e \<in> set settles. \<exists>x. e = Settle x"
      using settles_are_settles [OF u'(4)] by blast
    have where_fetch: "Fetch x \<in> set starts \<or> Fetch x \<in> set rest" if "x \<in> set items" for x
    proof -
      have "Fetch x \<in> set (starts @ settles @ rest)"
        using "1.prems"(4) that u'(1) by simp
      then show ?thesis using sett by auto
    qed
    have "Fetch x \<in> set starts" if x: "x \<in> set g" for x
    proof -
      have "x \<in> set items" using x unfolding g_def by (rule in_set_takeD)
      moreover have "Fetch x \<notin> set rest"
        using grouped_fetch_item [OF u'(5), of x] x disj by auto
      ultimately show ?thesis using where_fetch by blast
    qed
    then have st: "starts = map Fetch g"
      using starts_all_called [OF u'(3) dg(1)] by blast
    have lg: "length g = min n (length items)" "0 < length g"
      using ne n by (simp_all add: g_def)
    have "called = g"
      unfolding called_def st by (induction g) simp_all
    then have "length settles = length g"
      using u'(4) by (metis length_map size_mset)
    then have sne: "settles \<noteq> []" using lg(2) by auto
    have "Fetch x \<in> set rest" if x: "x \<in> set (drop n items)" for x
    proof -
      have "x \<in> set items" using x by (rule in_set_dropD)
      moreover have "Fetch x \<notin> set starts"
        using starts_fetch_item [OF u'(3), of x] x disj by auto
      ultimately show ?thesis using where_fetch by blast
    qed
    then have ih: "fetch_runs 0 rest = group_sizes n (length (drop n items))"
      using "1.IH" [OF _ g_def starts_def called_def settles_def u'(5) [unfolded rest_def] n dg(2)]
        ne n
      by (simp add: rest_def)
    have "fetch_runs 0 tr = fetch_runs 0 (map Fetch g @ settles @ rest)"
      using u'(1) st by simp
    also have "\<dots> = fetch_runs (length g) (settles @ rest)"
      by (simp add: fetch_runs_calls)
    also have "\<dots> = length g # fetch_runs 0 rest"
      using fetch_runs_settles [OF sett, of "length g" rest] sne lg(2) by simp
    also have "\<dots> = min n (length items) # group_sizes n (length items - n)"
      using ih lg(1) by simp
    also have "\<dots> = group_sizes n (length items)"
      using group_sizes_step [OF n, of "length items"] ne by simp
    finally show ?thesis .
  qed
qed

section \<open>The effect of a group\<close>

lemma registry_settle [simp]: "registry (settle x p) = registry p"
  by (simp add: registry_def settle_def)

lemma view_settle [simp]: "view (settle x p) = view p"
  by (simp add: view_def settle_def fun_eq_iff)

lemma shown_settle [simp]: "shown (settle x p) = shown p"
  by (simp add: settle_def)

lemma view_ui_event [simp]: "view (apply_ui_event e p) = view p"
  by (cases e) (simp_all add: view_def fun_eq_iff)

lemma view_ui_events [simp]: "view (ui_events es p) = view p"
  unfolding ui_events_def by (induction es arbitrary: p) simp_all

lemma shown_ui_event [simp]: "shown (apply_ui_event e p) = shown p"
  by (cases e) simp_all

lemma shown_ui_events [simp]: "shown (ui_events es p) = shown p"
  unfolding ui_events_def by (induction es arbitrary: p) simp_all

lemma registry_ui_event_cong:
  "registry p = registry q \<Longrightarrow> registry (apply_ui_event e p) = registry (apply_ui_event e q)"
  by (cases e) (simp_all add: registry_def)

lemma registry_ui_events_cong:
  "registry p = registry q \<Longrightarrow> registry (ui_events es p) = registry (ui_events es q)"
  unfolding ui_events_def
proof (induction es arbitrary: p q)
  case Nil
  then show ?case by simp
next
  case (Cons e es)
  then show ?case using registry_ui_event_cong [of p q e] by simp
qed

lemma ui_events_append: "ui_events (es1 @ es2) p = ui_events es2 (ui_events es1 p)"
  by (simp add: ui_events_def)

lemma start_all_preserves:
  assumes "\<And>x q. obs (snd (start x q)) = obs q" and "\<And>x q. obs (settle x q) = obs q"
  shows "obs (snd (start_all start batch p)) = obs p"
proof (induction batch arbitrary: p)
  case Nil
  show ?case by simp
next
  case (Cons x xs)
  obtain r p1 where s: "start x p = (r, p1)" by (cases "start x p")
  define q where "q = (case r of None \<Rightarrow> p1 | Some _ \<Rightarrow> settle x p1)"
  obtain rs p2 where t: "start_all start xs q = (rs, p2)" by (cases "start_all start xs q")
  have "obs p1 = obs p" using assms(1) [of x p] s by simp
  then have "obs q = obs p" unfolding q_def using assms(2) by (cases r) simp_all
  then have "obs p2 = obs p" using Cons.IH [of q] t by simp
  then show ?case using s t by (simp add: q_def [symmetric])
qed

lemma resume_all_preserves:
  assumes "\<And>x r q. obs (snd (resume x r q)) = obs q" and "\<And>x q. obs (settle x q) = obs q"
  shows "obs (snd (resume_all resume env ks slots p)) = obs p"
proof (induction ks arbitrary: slots p)
  case Nil
  show ?case by simp
next
  case (Cons kx ks)
  obtain k x where kx: "kx = (k, x)" by (cases kx)
  obtain r p1 where s: "resume x (response env x) p = (r, p1)"
    by (cases "resume x (response env x) p")
  have "obs (settle x p1) = obs p"
    using assms(1) [of x "response env x" p] assms(2) [of x p1] s by simp
  then show ?case using Cons.IH [of "slots[k := Some r]" "settle x p1"] kx s by simp
qed

lemma start_all_effect:
  assumes a1: "\<And>x q. registry (snd (start x q)) = registry q"
    and a2: "\<And>x q. fst (start x q) = out x (registry q)"
    and a3: "\<And>x q y. view (snd (start x q)) y
               = (if y = x then sview x (registry q) else view q y)"
  shows "fst (start_all start batch p) = map (\<lambda>x. out x (registry p)) batch
    \<and> (\<forall>y. view (snd (start_all start batch p)) y
           = (if y \<in> set batch then sview y (registry p) else view p y))"
proof (induction batch arbitrary: p)
  case Nil
  show ?case by simp
next
  case (Cons x xs)
  obtain r p1 where s: "start x p = (r, p1)" by (cases "start x p")
  define q where "q = (case r of None \<Rightarrow> p1 | Some _ \<Rightarrow> settle x p1)"
  obtain rs p2 where t: "start_all start xs q = (rs, p2)" by (cases "start_all start xs q")
  have r: "r = out x (registry p)" using a2 [of x p] s by simp
  have reg: "registry q = registry p" unfolding q_def using a1 [of x p] s by (cases r) simp_all
  have v1: "view q y = (if y = x then sview x (registry p) else view p y)" for y
    unfolding q_def using a3 [of x p y] s by (cases r) simp_all
  from Cons.IH [of q] t reg
  have ih: "rs = map (\<lambda>x. out x (registry p)) xs"
    "\<And>y. view p2 y = (if y \<in> set xs then sview y (registry p) else view q y)"
    by simp_all
  have e: "start_all start (x # xs) p = (r # rs, p2)"
    using s t by (simp add: q_def [symmetric])
  show ?case
    unfolding e using r ih(1) by (auto simp: ih(2) v1)
qed

lemma resume_all_view:
  assumes "\<And>x r q y. view (snd (resume x r q)) y = (if y = x then rview r else view q y)"
  shows "view (snd (resume_all resume env ks slots p)) y
    = (if y \<in> snd ` set ks then rview (response env y) else view p y)"
proof (induction ks arbitrary: slots p)
  case Nil
  show ?case by simp
next
  case (Cons kx ks)
  obtain k x where kx: "kx = (k, x)" by (cases kx)
  obtain r p1 where s: "resume x (response env x) p = (r, p1)"
    by (cases "resume x (response env x) p")
  have v1: "view (settle x p1) y = (if y = x then rview (response env x) else view p y)"
    using assms [of x "response env x" p y] s by simp
  show ?case
    using Cons.IH [of "slots[k := Some r]" "settle x p1"] kx s v1 by auto
qed

lemma resume_all_slots:
  assumes "\<And>x r q. fst (resume x r q) = res r"
  shows "fst (resume_all resume env ks slots p)
    = fold (\<lambda>(k, x) sl. sl[k := Some (res (response env x))]) ks slots"
proof (induction ks arbitrary: slots p)
  case Nil
  show ?case by simp
next
  case (Cons kx ks)
  obtain k x where kx: "kx = (k, x)" by (cases kx)
  obtain r p1 where s: "resume x (response env x) p = (r, p1)"
    by (cases "resume x (response env x) p")
  have "r = res (response env x)" using assms [of x "response env x" p] s by simp
  then show ?case
    using Cons.IH [of "slots[k := Some r]" "settle x p1"] kx s by simp
qed

lemma fold_slots:
  assumes "\<And>k x. (k, x) \<in> set ks \<Longrightarrow> x = batch ! k"
  shows "length (fold (\<lambda>(k, x) sl. sl[k := Some (f x)]) ks slots) = length slots
    \<and> (\<forall>j < length slots. fold (\<lambda>(k, x) sl. sl[k := Some (f x)]) ks slots ! j
          = (if j \<in> fst ` set ks then Some (f (batch ! j)) else slots ! j))"
  using assms
proof (induction ks arbitrary: slots)
  case Nil
  show ?case by simp
next
  case (Cons kx ks)
  obtain k x where kx: "kx = (k, x)" by (cases kx)
  have x: "x = batch ! k" using Cons.prems [of k x] kx by simp
  have ih: "length (fold (\<lambda>(k, x) sl. sl[k := Some (f x)]) ks (slots[k := Some (f x)]))
      = length slots"
    "\<And>j. j < length slots \<Longrightarrow>
       fold (\<lambda>(k, x) sl. sl[k := Some (f x)]) ks (slots[k := Some (f x)]) ! j
       = (if j \<in> fst ` set ks then Some (f (batch ! j)) else slots[k := Some (f x)] ! j)"
    using Cons.IH [of "slots[k := Some (f x)]"] Cons.prems by auto
  show ?case
    using kx x ih by (auto simp: nth_list_update)
qed

lemma set_pending:
  "set (pending batch outs)
   = {(k, batch ! k) | k. k < length batch \<and> k < length outs \<and> Option.is_none (outs ! k)}"
  unfolding pending_def
  by (auto simp: set_zip nth_enumerate_eq image_iff) (metis fst_conv nth_enumerate_eq length_enumerate add_0)+

lemma map_filter_Some: "List.map_filter (\<lambda>r. r) (map (\<lambda>x. Some (h x)) xs) = map h xs"
  by (induction xs) (simp_all add: List.map_filter_simps)

lemma set_completion_order [simp]: "set (completion_order env ps) = set ps"
  by (simp add: completion_order_def)

lemma run_group_effect:
  assumes a1: "\<And>x q. registry (snd (start x q)) = registry q"
    and a2: "\<And>x q. fst (start x q) = out x (registry q)"
    and a3: "\<And>x q y. view (snd (start x q)) y
               = (if y = x then sview x (registry q) else view q y)"
    and b1: "\<And>x r q. registry (snd (resume x r q)) = registry q"
    and b2: "\<And>x r q. fst (resume x r q) = res r"
    and b3: "\<And>x r q y. view (snd (resume x r q)) y = (if y = x then rview r else view q y)"
  shows "fst (run_group start resume env es batch p)
      = map (\<lambda>x. case out x (registry p) of Some r \<Rightarrow> r | None \<Rightarrow> res (response env x)) batch"
    and "view (snd (run_group start resume env es batch p)) y
      = (if y \<in> set batch then
           (case out y (registry p) of
              Some _ \<Rightarrow> sview y (registry p)
            | None \<Rightarrow> rview (response env y))
         else view p y)"
    and "registry (snd (run_group start resume env es batch p)) = registry (ui_events es p)"
proof -
  obtain outs p1 where s: "start_all start batch p = (outs, p1)"
    by (cases "start_all start batch p")
  define ks where "ks = completion_order env (pending batch outs)"
  obtain slots p2 where t: "resume_all resume env ks outs (ui_events es p1) = (slots, p2)"
    by (cases "resume_all resume env ks outs (ui_events es p1)")
  have rg: "run_group start resume env es batch p = (List.map_filter (\<lambda>r. r) slots, p2)"
    using s t by (simp add: run_group_def ks_def)
  have outs: "outs = map (\<lambda>x. out x (registry p)) batch"
    and v1: "\<And>y. view p1 y = (if y \<in> set batch then sview y (registry p) else view p y)"
    using start_all_effect [of start out sview batch p, OF a1 a2 a3] s by simp_all
  have r1: "registry p1 = registry p"
    using start_all_preserves [of registry start batch p, OF a1] s by simp
  have r2: "registry p2 = registry (ui_events es p1)"
    using resume_all_preserves [of registry resume env ks outs "ui_events es p1", OF b1] t
    by simp
  show "registry (snd (run_group start resume env es batch p)) = registry (ui_events es p)"
    using rg r2 registry_ui_events_cong [OF r1, of es] by simp
  have ks: "set ks = {(k, batch ! k) | k. k < length batch \<and> Option.is_none (outs ! k)}"
    unfolding ks_def by (auto simp: set_pending outs)
  have in_ks: "y \<in> snd ` set ks \<longleftrightarrow> y \<in> set batch \<and> Option.is_none (out y (registry p))"
    for y
  proof
    assume "y \<in> snd ` set ks"
    then obtain k where "k < length batch" "y = batch ! k" "Option.is_none (outs ! k)"
      using ks by auto
    then show "y \<in> set batch \<and> Option.is_none (out y (registry p))"
      by (simp add: outs)
  next
    assume "y \<in> set batch \<and> Option.is_none (out y (registry p))"
    then obtain k where "k < length batch" "y = batch ! k" "Option.is_none (outs ! k)"
      by (auto simp: in_set_conv_nth outs)
    then have "(k, y) \<in> set ks" using ks by auto
    then show "y \<in> snd ` set ks" by force
  qed
  have v2: "view p2 y
      = (if y \<in> snd ` set ks then rview (response env y) else view (ui_events es p1) y)"
    using resume_all_view [of resume rview env ks outs "ui_events es p1" y, OF b3] t by simp
  show "view (snd (run_group start resume env es batch p)) y
      = (if y \<in> set batch then
           (case out y (registry p) of
              Some _ \<Rightarrow> sview y (registry p)
            | None \<Rightarrow> rview (response env y))
         else view p y)"
    unfolding rg snd_conv v2 in_ks
    by (cases "out y (registry p)") (simp_all add: v1)
  have sl: "slots = fold (\<lambda>(k, x) sl. sl[k := Some (res (response env x))]) ks outs"
    using resume_all_slots [of resume res env ks outs "ui_events es p1", OF b2] t by simp
  have kx: "\<And>k x. (k, x) \<in> set ks \<Longrightarrow> x = batch ! k" using ks by auto
  have len: "length slots = length batch"
    and nth: "\<And>j. j < length batch \<Longrightarrow>
       slots ! j = (if j \<in> fst ` set ks then Some (res (response env (batch ! j)))
                    else outs ! j)"
    using fold_slots [of ks batch "\<lambda>x. res (response env x)" outs, OF kx] sl
    by (simp_all add: outs)
  have fst_ks: "j \<in> fst ` set ks \<longleftrightarrow> j < length batch \<and> Option.is_none (outs ! j)" for j
    using ks by force
  have "slots = map (\<lambda>x. Some (case out x (registry p) of
                                  Some r \<Rightarrow> r | None \<Rightarrow> res (response env x))) batch"
  proof (rule nth_equalityI)
    show "length slots = length (map (\<lambda>x. Some (case out x (registry p) of
                                  Some r \<Rightarrow> r | None \<Rightarrow> res (response env x))) batch)"
      using len by simp
  next
    fix j assume "j < length slots"
    then have j: "j < length batch" using len by simp
    show "slots ! j = map (\<lambda>x. Some (case out x (registry p) of
                                  Some r \<Rightarrow> r | None \<Rightarrow> res (response env x))) batch ! j"
      using j nth [OF j] fst_ks [of j]
      by (cases "out (batch ! j) (registry p)") (simp_all add: outs)
  qed
  then show "fst (run_group start resume env es batch p)
      = map (\<lambda>x. case out x (registry p) of Some r \<Rightarrow> r | None \<Rightarrow> res (response env x)) batch"
    unfolding rg fst_conv by (simp only: map_filter_Some)
qed

lemma run_group_preserves:
  assumes "\<And>x q. obs (snd (start x q)) = obs q"
    and "\<And>x r q. obs (snd (resume x r q)) = obs q"
    and "\<And>x q. obs (settle x q) = obs q"
    and "\<And>q. obs (ui_events es q) = obs q"
  shows "obs (snd (run_group start resume env es batch p)) = obs p"
proof -
  obtain outs p1 where s: "start_all start batch p = (outs, p1)"
    by (cases "start_all start batch p")
  define ks where "ks = completion_order env (pending batch outs)"
  obtain slots p2 where t: "resume_all resume env ks outs (ui_events es p1) = (slots, p2)"
    by (cases "resume_all resume env ks outs (ui_events es p1)")
  have rg: "run_group start resume env es batch p = (List.map_filter (\<lambda>r. r) slots, p2)"
    using s t by (simp add: run_group_def ks_def)
  have "obs p1 = obs p"
    using start_all_preserves [of obs start batch p, OF assms(1) assms(3)] s by simp
  moreover have "obs p2 = obs (ui_events es p1)"
    using resume_all_preserves [of obs resume env ks outs "ui_events es p1",
        OF assms(2) assms(3)] t by simp
  ultimately show ?thesis using rg assms(4) by simp
qed

lemma resume_all_count:
  assumes "\<And>x r q. cnt (snd (resume x r q)) = cnt q + w r"
    and "\<And>x q. cnt (settle x q) = cnt q"
  shows "cnt (snd (resume_all resume env ks slots p))
    = (cnt p :: nat) + sum_list (map (\<lambda>(k, x). w (response env x)) ks)"
proof (induction ks arbitrary: slots p)
  case Nil
  show ?case by simp
next
  case (Cons kx ks)
  obtain k x where kx: "kx = (k, x)" by (cases kx)
  obtain r p1 where s: "resume x (response env x) p = (r, p1)"
    by (cases "resume x (response env x) p")
  have "cnt (settle x p1) = cnt p + w (response env x)"
    using assms(1) [of x "response env x" p] assms(2) [of x p1] s by simp
  then show ?case
    using Cons.IH [of "slots[k := Some r]" "settle x p1"] kx s by simp
qed

lemma sum_list_completion_order:
  "sum_list (map f (completion_order env ps)) = (sum_list (map f ps) :: nat)"
proof -
  have "mset (map f (completion_order env ps)) = mset (map f ps)"
    by (simp add: completion_order_def)
  then show ?thesis by (metis sum_mset_sum_list)
qed

lemma pending_map_out:
  "map snd (pending batch (map g batch)) = filter (\<lambda>x. Option.is_none (g x)) batch"
proof -
  have "map fst (filter (\<lambda>(x, r). Option.is_none r) (zip batch (map g batch)))
      = filter (\<lambda>x. Option.is_none (g x)) batch"
    by (induction batch) simp_all
  then show ?thesis by (simp add: pending_items)
qed

lemma run_group_count:
  assumes a1: "\<And>x q. registry (snd (start x q)) = registry q"
    and a2: "\<And>x q. fst (start x q) = out x (registry q)"
    and a3: "\<And>x q y. view (snd (start x q)) y
               = (if y = x then sview x (registry q) else view q y)"
    and c1: "\<And>x q. cnt (snd (start x q)) = cnt q"
    and c2: "\<And>x r q. cnt (snd (resume x r q)) = cnt q + w r"
    and c3: "\<And>x q. cnt (settle x q) = cnt q"
    and c4: "\<And>q. cnt (ui_events es q) = cnt q"
  shows "cnt (snd (run_group start resume env es batch p))
    = (cnt p :: nat) + sum_list (map (\<lambda>x. w (response env x))
                (filter (\<lambda>x. Option.is_none (out x (registry p))) batch))"
proof -
  obtain outs p1 where s: "start_all start batch p = (outs, p1)"
    by (cases "start_all start batch p")
  define ks where "ks = completion_order env (pending batch outs)"
  obtain slots p2 where t: "resume_all resume env ks outs (ui_events es p1) = (slots, p2)"
    by (cases "resume_all resume env ks outs (ui_events es p1)")
  have rg: "run_group start resume env es batch p = (List.map_filter (\<lambda>r. r) slots, p2)"
    using s t by (simp add: run_group_def ks_def)
  have outs: "outs = map (\<lambda>x. out x (registry p)) batch"
    using start_all_effect [of start out sview batch p, OF a1 a2 a3] s by simp
  have "cnt p1 = cnt p"
    using start_all_preserves [of cnt start batch p, OF c1 c3] s by simp
  moreover have "cnt p2 = cnt (ui_events es p1)
      + sum_list (map (\<lambda>(k, x). w (response env x)) ks)"
    using resume_all_count [of cnt resume w env ks outs "ui_events es p1", OF c2 c3] t by simp
  moreover have "sum_list (map (\<lambda>(k, x). w (response env x)) ks)
      = sum_list (map (\<lambda>(k, x). w (response env x)) (pending batch outs))"
    unfolding ks_def by (rule sum_list_completion_order)
  moreover have "map (\<lambda>(k, x). w (response env x)) (pending batch outs)
      = map (\<lambda>x. w (response env x)) (map snd (pending batch outs))"
    by (simp add: case_prod_beta comp_def)
  ultimately show ?thesis
    using rg c4 by (simp add: outs pending_map_out)
qed

lemma Fetch_in_start_events:
  "Fetch y \<in> set (start_events batch (map g batch))
   \<longleftrightarrow> y \<in> set batch \<and> Option.is_none (g y)"
  by (induction batch) auto

lemma run_group_fetched:
  assumes a1: "\<And>x q. registry (snd (start x q)) = registry q"
    and a2: "\<And>x q. fst (start x q) = out x (registry q)"
    and a3: "\<And>x q y. view (snd (start x q)) y
               = (if y = x then sview x (registry q) else view q y)"
    and l1: "\<And>x q. calls (snd (start x q))
             = calls q @ (if Option.is_none (fst (start x q)) then [Fetch x] else [])"
    and l2: "\<And>x r q. calls (snd (resume x r q)) = calls q"
  shows "Fetch y \<in> set (calls (snd (run_group start resume env es batch p)))
    \<longleftrightarrow> Fetch y \<in> set (calls p) \<or> y \<in> set batch \<and> Option.is_none (out y (registry p))"
proof -
  have outs: "fst (start_all start batch p) = map (\<lambda>x. out x (registry p)) batch"
    using start_all_effect [of start out sview batch p, OF a1 a2 a3] by simp
  have "Fetch y \<notin> set (map (\<lambda>(k, x). Settle x) ks)" for ks :: "(nat \<times> item) list"
    by auto
  then show ?thesis
    using run_group_calls [of start resume env es batch p, OF l1 l2]
    by (simp add: outs group_log_def Fetch_in_start_events)
qed

section \<open>The effect of the process button\<close>

lemma getFileFromItem_registry: "getFileFromItem x p = registry_lookup (registry p) x"
  by (simp add: getFileFromItem_def registry_lookup_def registry_def window_fileMap_def
      split: option.splits)

lemma registry_updateFileStatus [simp]: "registry (updateFileStatus x st pr p) = registry p"
  by (simp add: updateFileStatus_def registry_def Let_def split: option.splits)

lemma shown_updateFileStatus [simp]: "shown (updateFileStatus x st pr p) = shown p"
  by (simp add: updateFileStatus_def Let_def split: option.splits)

lemma successCount_updateFileStatus [simp]:
  "successCount (updateFileStatus x st pr p) = successCount p"
  by (simp add: updateFileStatus_def Let_def split: option.splits)

lemma view_updateFileStatus [simp]:
  "view (updateFileStatus x st (Some n) p) y = (if y = x then (st, n) else view p y)"
  by (simp add: updateFileStatus_def view_def Let_def)

lemma registry_fetch [simp]: "registry (fetch x f p) = registry p"
  by (simp add: fetch_def registry_def)

lemma shown_fetch [simp]: "shown (fetch x f p) = shown p"
  by (simp add: fetch_def)

lemma successCount_fetch [simp]: "successCount (fetch x f p) = successCount p"
  by (simp add: fetch_def)

lemma view_fetch [simp]: "view (fetch x f p) = view p"
  by (simp add: fetch_def view_def fun_eq_iff)

lemma successCount_settle [simp]: "successCount (settle x p) = successCount p"
  by (simp add: settle_def)

lemma successCount_ui_event [simp]: "successCount (apply_ui_event e p) = successCount p"
  by (cases e) simp_all

lemma successCount_ui_events [simp]: "successCount (ui_events es p) = successCount p"
  unfolding ui_events_def by (induction es arbitrary: p) simp_all

lemma process_start_eq:
  "process_start x q =
    (case registry_lookup (registry q) x of
       None \<Rightarrow> (Some (Inr ()), updateFileStatus x ''Error: File not found'' (Some 0) q)
     | Some f \<Rightarrow> (None, fetch x f (updateFileStatus x ''Uploading...'' (Some 30) q)))"
  by (simp add: process_start_def getFileFromItem_registry process_catch_def
      uploadFile_start_def split: option.splits)

lemma process_start_facts:
  "registry (snd (process_start x q)) = registry q"
  "fst (process_start x q) = process_out x (registry q)"
  "view (snd (process_start x q)) y = (if y = x then process_sview x (registry q) else view q y)"
  "shown (snd (process_start x q)) = shown q"
  "successCount (snd (process_start x q)) = successCount q"
  by (simp_all add: process_start_eq process_out_def process_sview_def split: option.splits)

lemma registry_successCount_update [simp]:
  "registry (p\<lparr>successCount := n\<rparr>) = registry p"
  by (simp add: registry_def)

lemma view_successCount_update [simp]: "view (p\<lparr>successCount := n\<rparr>) = view p"
  by (simp add: view_def fun_eq_iff)

lemma process_resume_facts:
  "registry (snd (process_resume x r q)) = registry q"
  "view (snd (process_resume x r q)) y
    = (if y = x then settled_view (upload_data r) else view q y)"
  "shown (snd (process_resume x r q)) = shown q"
  "successCount (snd (process_resume x r q))
    = successCount q + (if isl (upload_data r) then 0 else 1)"
proof -
  show "registry (snd (process_resume x r q)) = registry q"
    by (cases r rule: upload_data_cases)
      (simp_all add: process_resume_Inr process_resume_Inl)
  show "view (snd (process_resume x r q)) y
    = (if y = x then settled_view (upload_data r) else view q y)"
    by (cases r rule: upload_data_cases)
      (simp_all add: process_resume_Inr process_resume_Inl settled_view_def)
  show "shown (snd (process_resume x r q)) = shown q"
    by (cases r rule: upload_data_cases)
      (simp_all add: process_resume_Inr process_resume_Inl)
  show "successCount (snd (process_resume x r q))
    = successCount q + (if isl (upload_data r) then 0 else 1)"
    by (cases r rule: upload_data_cases)
      (simp_all add: process_resume_Inr process_resume_Inl)
qed

lemma process_group:
  fixes p :: process_run and env es batch
  defines "q \<equiv> snd (run_group process_start process_resume env es batch p)"
  shows "view q y = (if y \<in> set batch then process_view env (registry p) y else view p y)"
    and "registry q = registry (ui_events es p)"
    and "shown q = shown p"
    and "successCount q
          = successCount p + length (filter (process_success env (registry p)) batch)"
    and "Fetch y \<in> set (calls q)
          \<longleftrightarrow> Fetch y \<in> set (calls p)
              \<or> y \<in> set batch \<and> registry_lookup (registry p) y \<noteq> None"
proof -
  note st = process_start_facts(1,2,3)
  have "view q y
      = (if y \<in> set batch then
           (case process_out y (registry p) of
              Some _ \<Rightarrow> process_sview y (registry p)
            | None \<Rightarrow> settled_view (upload_data (response env y)))
         else view p y)"
    unfolding q_def
    by (rule run_group_effect(2) [of process_start process_out process_sview process_resume
          "\<lambda>r. Inr ()" "\<lambda>r. settled_view (upload_data r)"])
      (simp_all add: st process_resume_facts process_resume_fulfils)
  then show "view q y = (if y \<in> set batch then process_view env (registry p) y else view p y)"
    by (simp add: process_out_def process_sview_def process_view_def split: option.splits)
  show "registry q = registry (ui_events es p)"
    unfolding q_def
    by (rule run_group_effect(3) [of process_start process_out process_sview process_resume
          "\<lambda>r. Inr ()" "\<lambda>r. settled_view (upload_data r)"])
      (simp_all add: st process_resume_facts process_resume_fulfils)
  show "shown q = shown p"
    unfolding q_def
    by (rule run_group_preserves) (simp_all add: process_start_facts process_resume_facts)
  have "successCount q = successCount p
      + sum_list (map (\<lambda>x. if isl (upload_data (response env x)) then 0 else 1)
          (filter (\<lambda>x. Option.is_none (process_out x (registry p))) batch))"
    unfolding q_def
    by (rule run_group_count [of process_start process_out process_sview successCount
          process_resume "\<lambda>r. if isl (upload_data r) then 0 else 1"])
      (simp_all add: process_start_facts process_resume_facts)
  also have "sum_list (map (\<lambda>x. if isl (upload_data (response env x)) then 0 else 1)
          (filter (\<lambda>x. Option.is_none (process_out x (registry p))) batch))
      = length (filter (process_success env (registry p)) batch)"
    by (induction batch)
      (auto simp: process_out_def process_success_def split: option.splits)
  finally show "successCount q
      = successCount p + length (filter (process_success env (registry p)) batch)" .
  have "Fetch y \<in> set (calls q)
      \<longleftrightarrow> Fetch y \<in> set (calls p)
          \<or> y \<in> set batch \<and> Option.is_none (process_out y (registry p))"
    unfolding q_def
    by (rule run_group_fetched [of process_start process_out process_sview process_resume])
      (simp_all add: st process_start_calls process_resume_calls)
  then show "Fetch y \<in> set (calls q)
      \<longleftrightarrow> Fetch y \<in> set (calls p)
          \<or> y \<in> set batch \<and> registry_lookup (registry p) y \<noteq> None"
    by (simp add: process_out_def split: option.splits)
qed

lemma registry_at_same [simp]: "registry_at env p g g = registry p"
  by (simp add: registry_at_def ui_events_def)

lemma registry_at_step:
  assumes "g < h" "registry q = registry (ui_events (during env g) p)"
  shows "registry_at env q (Suc g) h = registry_at env p g h"
proof -
  have "[g..<h] = g # [Suc g..<h]" using assms(1) by (simp add: upt_conv_Cons)
  then have "registry_at env p g h
      = registry (ui_events (concat (map (during env) [Suc g..<h]))
          (ui_events (during env g) p))"
    by (simp add: registry_at_def ui_events_append)
  also have "\<dots> = registry (ui_events (concat (map (during env) [Suc g..<h])) q)"
    by (rule registry_ui_events_cong) (simp add: assms(2))
  finally show ?thesis by (simp add: registry_at_def)
qed

lemma take_drop_nth: "take k (drop i xs) = map ((!) xs) [i..<min (i + k) (length xs)]"
proof (rule nth_equalityI)
  show "length (take k (drop i xs)) = length (map ((!) xs) [i..<min (i + k) (length xs)])"
    by auto
next
  fix j assume "j < length (take k (drop i xs))"
  then have j: "j < k" "i + j < length xs" by auto
  then have "take k (drop i xs) ! j = xs ! (i + j)" by simp
  moreover have "map ((!) xs) [i..<min (i + k) (length xs)] ! j = xs ! (i + j)"
    using j by simp
  ultimately show "take k (drop i xs) ! j = map ((!) xs) [i..<min (i + k) (length xs)] ! j"
    by simp
qed

lemma distinct_nth_in_group:
  assumes "distinct xs" "a < length xs"
  shows "xs ! a \<in> set (take k (drop i xs)) \<longleftrightarrow> i \<le> a \<and> a < i + k"
proof -
  have "xs ! a \<in> set (take k (drop i xs))
      \<longleftrightarrow> (\<exists>b. i \<le> b \<and> b < i + k \<and> b < length xs \<and> xs ! b = xs ! a)"
  proof
    assume "xs ! a \<in> set (take k (drop i xs))"
    then obtain b where "b \<in> set [i..<min (i + k) (length xs)]" "xs ! a = xs ! b"
      unfolding take_drop_nth by auto
    then show "\<exists>b. i \<le> b \<and> b < i + k \<and> b < length xs \<and> xs ! b = xs ! a"
      by auto
  next
    assume "\<exists>b. i \<le> b \<and> b < i + k \<and> b < length xs \<and> xs ! b = xs ! a"
    then obtain b where b: "i \<le> b" "b < i + k" "b < length xs" "xs ! b = xs ! a" by auto
    then have "b \<in> set [i..<min (i + k) (length xs)]" by simp
    then have "xs ! b \<in> set (map ((!) xs) [i..<min (i + k) (length xs)])"
      by (simp only: set_map) (rule imageI)
    then show "xs ! a \<in> set (take k (drop i xs))"
      unfolding take_drop_nth using b(4) by simp
  qed
  also have "\<dots> \<longleftrightarrow> i \<le> a \<and> a < i + k"
    using assms by (auto simp: nth_eq_iff_index_eq)
  finally show ?thesis .
qed

lemma distinct_nth_in_drop:
  assumes "distinct xs" "a < length xs"
  shows "xs ! a \<in> set (drop i xs) \<longleftrightarrow> i \<le> a"
proof -
  have "drop i xs = take (length xs) (drop i xs)" by simp
  then have "xs ! a \<in> set (drop i xs) \<longleftrightarrow> xs ! a \<in> set (take (length xs) (drop i xs))"
    by simp
  also have "\<dots> \<longleftrightarrow> i \<le> a \<and> a < i + length xs"
    by (rule distinct_nth_in_group [OF assms])
  finally show ?thesis using assms(2) by auto
qed

lemma set_drop_split: "set (drop i xs) = set (take k (drop i xs)) \<union> set (drop (i + k) xs)"
proof -
  have "drop i xs = take k (drop i xs) @ drop k (drop i xs)"
    by (rule append_take_drop_id [symmetric])
  then have "set (drop i xs) = set (take k (drop i xs)) \<union> set (drop k (drop i xs))"
    by (metis set_append)
  then show ?thesis by (simp add: add.commute)
qed

lemma process_loop_step:
  assumes "i < length items"
  shows "process_loop env items i p
    = process_loop env items (i + 3)
        (snd (run_group process_start process_resume env (during env (i div 3))
                (take 3 (drop i items)) p))"
proof -
  obtain rs p1 where g: "run_group process_start process_resume env (during env (i div 3))
      (take 3 (drop i items)) p = (rs, p1)"
    by (cases "run_group process_start process_resume env (during env (i div 3))
      (take 3 (drop i items)) p")
  obtain vs where vs: "promise_all rs = Inr vs"
    using process_group_never_rejects [of env "during env (i div 3)" "take 3 (drop i items)" p] g
    by auto
  show ?thesis using assms g vs by (simp add: process_loop.simps [of env items i p])
qed

lemma process_loop_effect:
  fixes p :: process_run
  assumes "distinct items" "3 dvd i"
  shows "(\<forall>a. i \<le> a \<and> a < length items \<longrightarrow>
            view (snd (process_loop env items i p)) (items ! a)
              = process_view env (registry_at env p (i div 3) (a div 3)) (items ! a)
            \<and> (Fetch (items ! a) \<in> set (calls (snd (process_loop env items i p)))
                \<longleftrightarrow> Fetch (items ! a) \<in> set (calls p)
                    \<or> registry_lookup (registry_at env p (i div 3) (a div 3)) (items ! a)
                       \<noteq> None))
    \<and> (\<forall>y. y \<notin> set (drop i items) \<longrightarrow>
            view (snd (process_loop env items i p)) y = view p y
            \<and> (Fetch y \<in> set (calls (snd (process_loop env items i p)))
                \<longleftrightarrow> Fetch y \<in> set (calls p)))
    \<and> shown (snd (process_loop env items i p)) = shown p
    \<and> successCount (snd (process_loop env items i p))
        = successCount p
          + length (filter (\<lambda>a. process_success env (registry_at env p (i div 3) (a div 3))
                                 (items ! a)) [i..<length items])"
  using assms
proof (induction env items i p rule: process_loop.induct)
  case (1 env items i p)
  show ?case
  proof (cases "i < length items")
    case False
    then have "process_loop env items i p = (Inr (), p)"
      by (simp add: process_loop.simps [of env items i p])
    then show ?thesis using False by auto
  next
    case True
    define n where "n = length items"
    define g where "g = take 3 (drop i items)"
    define p1 where "p1 = snd (run_group process_start process_resume env
      (during env (i div 3)) g p)"
    define q where "q = snd (process_loop env items (i + 3) p1)"
    have eq: "snd (process_loop env items i p) = q"
      using process_loop_step [OF True, of env p] by (simp add: q_def p1_def g_def)
    obtain rs where g1: "(rs, p1) = run_group process_start process_resume env
      (during env (i div 3)) (take 3 (drop i items)) p"
      unfolding p1_def g_def by (metis prod.collapse)
    obtain vs where vs: "promise_all rs = Inr vs"
      using process_group_never_rejects [of env "during env (i div 3)" "take 3 (drop i items)" p]
        g1 by (metis fst_conv)
    have d3: "3 dvd i + 3" using "1.prems"(2) by simp
    note ih = "1.IH" [OF True g1 vs "1.prems"(1) d3, folded q_def]
    have ihA: "view q (items ! a)
          = process_view env (registry_at env p1 ((i + 3) div 3) (a div 3)) (items ! a)"
        "Fetch (items ! a) \<in> set (calls q)
          \<longleftrightarrow> Fetch (items ! a) \<in> set (calls p1)
              \<or> registry_lookup (registry_at env p1 ((i + 3) div 3) (a div 3)) (items ! a)
                 \<noteq> None"
      if "i + 3 \<le> a" "a < length items" for a
      using ih that by blast+
    have ihB: "view q y = view p1 y" "Fetch y \<in> set (calls q) \<longleftrightarrow> Fetch y \<in> set (calls p1)"
      if "y \<notin> set (drop (i + 3) items)" for y
      using ih that by blast+
    have ihC: "shown q = shown p1" using ih by blast
    have ihD: "successCount q
        = successCount p1
          + length (filter (\<lambda>a. process_success env
                                  (registry_at env p1 ((i + 3) div 3) (a div 3)) (items ! a))
                      [i + 3..<length items])"
      using ih by blast
    have gv: "\<And>y. view p1 y = (if y \<in> set g then process_view env (registry p) y else view p y)"
      and gr: "registry p1 = registry (ui_events (during env (i div 3)) p)"
      and gs: "shown p1 = shown p"
      and gc: "successCount p1
          = successCount p + length (filter (process_success env (registry p)) g)"
      and gf: "\<And>y. Fetch y \<in> set (calls p1)
          \<longleftrightarrow> Fetch y \<in> set (calls p) \<or> y \<in> set g \<and> registry_lookup (registry p) y \<noteq> None"
      unfolding p1_def by (rule process_group)+
    have div_same: "a div 3 = i div 3" if "i \<le> a" "a < i + 3" for a
      using that "1.prems"(2) by (elim dvdE) auto
    have div_next: "(i + 3) div 3 = Suc (i div 3)" by simp
    have div_less: "i div 3 < a div 3" if "i + 3 \<le> a" for a
      using that "1.prems"(2) by (elim dvdE) auto
    have reg_later: "registry_at env p1 (Suc (i div 3)) (a div 3)
        = registry_at env p (i div 3) (a div 3)" if "i + 3 \<le> a" for a
      by (rule registry_at_step [OF div_less [OF that] gr])
    have in_g: "items ! a \<in> set g \<longleftrightarrow> i \<le> a \<and> a < i + 3" if "a < length items" for a
      unfolding g_def by (rule distinct_nth_in_group [OF "1.prems"(1) that])
    have in_rest: "items ! a \<in> set (drop (i + 3) items) \<longleftrightarrow> i + 3 \<le> a"
      if "a < length items" for a
      by (rule distinct_nth_in_drop [OF "1.prems"(1) that])
    have A: "view q (items ! a)
              = process_view env (registry_at env p (i div 3) (a div 3)) (items ! a)
            \<and> (Fetch (items ! a) \<in> set (calls q)
                \<longleftrightarrow> Fetch (items ! a) \<in> set (calls p)
                    \<or> registry_lookup (registry_at env p (i div 3) (a div 3)) (items ! a)
                       \<noteq> None)"
      if a: "i \<le> a" "a < length items" for a
    proof (cases "a < i + 3")
      case True
      then have "items ! a \<notin> set (drop (i + 3) items)" using in_rest [OF a(2)] by simp
      then have "view q (items ! a) = view p1 (items ! a)"
        "Fetch (items ! a) \<in> set (calls q) \<longleftrightarrow> Fetch (items ! a) \<in> set (calls p1)"
        by (rule ihB)+
      moreover have "items ! a \<in> set g" using in_g [OF a(2)] a(1) True by simp
      ultimately show ?thesis
        using gv [of "items ! a"] gf [of "items ! a"] div_same [OF a(1) True] by simp
    next
      case False
      then have b: "i + 3 \<le> a" by simp
      then have "items ! a \<notin> set g" using in_g [OF a(2)] by simp
      then have "Fetch (items ! a) \<in> set (calls p1) \<longleftrightarrow> Fetch (items ! a) \<in> set (calls p)"
        using gf [of "items ! a"] by simp
      then show ?thesis
        using ihA [OF b a(2)] reg_later [OF b] by (simp add: div_next)
    qed
    have B: "view q y = view p y \<and> (Fetch y \<in> set (calls q) \<longleftrightarrow> Fetch y \<in> set (calls p))"
      if "y \<notin> set (drop i items)" for y
    proof -
      have "y \<notin> set g" "y \<notin> set (drop (i + 3) items)"
        using that set_drop_split [of i items 3] by (auto simp: g_def)
      then show ?thesis using ihB [of y] gv [of y] gf [of y] by simp
    qed
    have C: "shown q = shown p" using ihC gs by simp
    define m where "m = min (i + 3) (length items)"
    have g_nth: "g = map ((!) items) [i..<m]"
      unfolding g_def m_def by (rule take_drop_nth)
    have split: "[i..<length items] = [i..<m] @ [i + 3..<length items]"
    proof (cases "i + 3 \<le> length items")
      case True
      then have "m = i + 3" by (simp add: m_def)
      then show ?thesis using True upt_add_eq_append [of i "i + 3" "length items - (i + 3)"]
        by simp
    next
      case False
      then have "m = length items" by (simp add: m_def)
      then show ?thesis using False by simp
    qed
    have c1: "length (filter (process_success env (registry p)) g)
        = length (filter (\<lambda>a. process_success env (registry_at env p (i div 3) (a div 3))
                                 (items ! a)) [i..<m])"
    proof -
      have "filter (\<lambda>a. process_success env (registry_at env p (i div 3) (a div 3))
                                 (items ! a)) [i..<m]
          = filter (\<lambda>a. process_success env (registry p) (items ! a)) [i..<m]"
      proof (rule filter_cong [OF refl])
        fix a assume "a \<in> set [i..<m]"
        then have "i \<le> a" "a < i + 3" by (auto simp: m_def)
        then have "a div 3 = i div 3" by (rule div_same)
        then show "process_success env (registry_at env p (i div 3) (a div 3)) (items ! a)
            = process_success env (registry p) (items ! a)"
          by simp
      qed
      then show ?thesis
        by (simp add: g_nth filter_map comp_def)
    qed
    have c2: "filter (\<lambda>a. process_success env (registry_at env p1 (Suc (i div 3)) (a div 3))
                                 (items ! a)) [i + 3..<length items]
        = filter (\<lambda>a. process_success env (registry_at env p (i div 3) (a div 3))
                                 (items ! a)) [i + 3..<length items]"
    proof (rule filter_cong [OF refl])
      fix a assume "a \<in> set [i + 3..<length items]"
      then have "i + 3 \<le> a" by simp
      then show "process_success env (registry_at env p1 (Suc (i div 3)) (a div 3)) (items ! a)
          = process_success env (registry_at env p (i div 3) (a div 3)) (items ! a)"
        by (simp only: reg_later)
    qed
    have D: "successCount q
        = successCount p
          + length (filter (\<lambda>a. process_success env (registry_at env p (i div 3) (a div 3))
                                 (items ! a)) [i..<length items])"
      using ihD gc c1 c2 by (simp add: div_next split)
    show ?thesis
      unfolding eq using A B C D by blast
  qed
qed

section \<open>The effect of the summarize button in batch mode\<close>

lemma batch_start_eq:
  "batch_start x q =
    (case fst (registry q) x of
       None \<Rightarrow>
         (Some (Inl (Error ''No file found'')),
          updateFileStatus x ''Error: No file found'' (Some 0) q)
     | Some f \<Rightarrow> (None, fetch x f (updateFileStatus x ''Processing...'' (Some 50) q)))"
  by (simp add: batch_start_def registry_def processFile_start_def split: option.splits)

lemma batch_start_facts:
  "registry (snd (batch_start x q)) = registry q"
  "fst (batch_start x q) = batch_out x (registry q)"
  "view (snd (batch_start x q)) y = (if y = x then batch_sview x (registry q) else view q y)"
  "shown (snd (batch_start x q)) = shown q"
  by (simp_all add: batch_start_eq batch_out_def batch_sview_def split: option.splits)

lemma processFile_resume_facts:
  "registry (snd (processFile_resume x r q)) = registry q"
  "fst (processFile_resume x r q) = process_data r"
  "view (snd (processFile_resume x r q)) y
    = (if y = x then settled_view (process_data r) else view q y)"
  "shown (snd (processFile_resume x r q)) = shown q"
  by (cases r rule: process_data_cases;
      simp add: processFile_resume_Inr processFile_resume_Inl settled_view_def)+

lemma batch_group:
  fixes p :: page and env es batch
  defines "rq \<equiv> run_group batch_start processFile_resume env es batch p"
  shows "fst rq = map (batch_result env (registry p)) batch"
    and "view (snd rq) y = (if y \<in> set batch then batch_view env (registry p) y else view p y)"
    and "registry (snd rq) = registry (ui_events es p)"
    and "shown (snd rq) = shown p"
    and "Fetch y \<in> set (calls (snd rq))
          \<longleftrightarrow> Fetch y \<in> set (calls p) \<or> y \<in> set batch \<and> fst (registry p) y \<noteq> None"
proof -
  note st = batch_start_facts(1,2,3)
  note rs = processFile_resume_facts(1,2,3)
  have "fst rq = map (\<lambda>x. case batch_out x (registry p) of
                            Some r \<Rightarrow> r | None \<Rightarrow> process_data (response env x)) batch"
    unfolding rq_def
    by (rule run_group_effect(1) [of batch_start batch_out batch_sview processFile_resume
          process_data "\<lambda>r. settled_view (process_data r)"])
      (simp_all add: st rs)
  then show "fst rq = map (batch_result env (registry p)) batch"
    by (simp add: batch_out_def batch_result_def split: option.splits)
  have "view (snd rq) y
      = (if y \<in> set batch then
           (case batch_out y (registry p) of
              Some _ \<Rightarrow> batch_sview y (registry p)
            | None \<Rightarrow> settled_view (process_data (response env y)))
         else view p y)"
    unfolding rq_def
    by (rule run_group_effect(2) [of batch_start batch_out batch_sview processFile_resume
          process_data "\<lambda>r. settled_view (process_data r)"])
      (simp_all add: st rs)
  then show "view (snd rq) y
      = (if y \<in> set batch then batch_view env (registry p) y else view p y)"
    by (simp add: batch_out_def batch_sview_def batch_view_def split: option.splits)
  show "registry (snd rq) = registry (ui_events es p)"
    unfolding rq_def
    by (rule run_group_effect(3) [of batch_start batch_out batch_sview processFile_resume
          process_data "\<lambda>r. settled_view (process_data r)"])
      (simp_all add: st rs)
  show "shown (snd rq) = shown p"
    unfolding rq_def
    by (rule run_group_preserves) (simp_all add: batch_start_facts processFile_resume_facts)
  have "Fetch y \<in> set (calls (snd rq))
      \<longleftrightarrow> Fetch y \<in> set (calls p)
          \<or> y \<in> set batch \<and> Option.is_none (batch_out y (registry p))"
    unfolding rq_def
    by (rule run_group_fetched [of batch_start batch_out batch_sview processFile_resume])
      (simp_all add: st batch_start_calls processFile_resume_calls)
  then show "Fetch y \<in> set (calls (snd rq))
      \<longleftrightarrow> Fetch y \<in> set (calls p) \<or> y \<in> set batch \<and> fst (registry p) y \<noteq> None"
    by (simp add: batch_out_def split: option.splits)
qed

lemma batch_loop_step:
  assumes "i < length items"
  shows "batch_loop env items i results p
    = batch_loop env items (i + 3)
        (results @ fst (run_group batch_start processFile_resume env (during env (i div 3))
                          (take 3 (drop i items)) p))
        (snd (run_group batch_start processFile_resume env (during env (i div 3))
                (take 3 (drop i items)) p))"
  using assms
  by (simp add: batch_loop.simps [of env items i results p] maxConcurrent_def
      split: prod.splits)

lemma batch_loop_results:
  assumes "3 dvd i"
  shows "fst (batch_loop env items i results p)
    = results @ map (\<lambda>a. batch_result env (registry_at env p (i div 3) (a div 3)) (items ! a))
                  [i..<length items]"
  using assms
proof (induction env items i results p rule: batch_loop.induct)
  case (1 env items i results p)
  show ?case
  proof (cases "i < length items")
    case False
    then show ?thesis by (simp add: batch_loop.simps [of env items i results p])
  next
    case True
    define g where "g = take 3 (drop i items)"
    define rq where "rq = run_group batch_start processFile_resume env (during env (i div 3)) g p"
    have eq: "batch_loop env items i results p
        = batch_loop env items (i + 3) (results @ fst rq) (snd rq)"
      using batch_loop_step [OF True] by (simp add: rq_def g_def)
    have g1: "(fst rq, snd rq) = run_group batch_start processFile_resume env
        (during env (i div maxConcurrent)) (take maxConcurrent (drop i items)) p"
      by (simp add: rq_def g_def maxConcurrent_def)
    have d3: "3 dvd i + maxConcurrent" using "1.prems" by (simp add: maxConcurrent_def)
    have ih: "fst (batch_loop env items (i + 3) (results @ fst rq) (snd rq))
        = (results @ fst rq)
          @ map (\<lambda>a. batch_result env (registry_at env (snd rq) ((i + 3) div 3) (a div 3))
                        (items ! a)) [i + 3..<length items]"
      using "1.IH" [OF True g1 d3] by (simp add: maxConcurrent_def)
    have gres: "fst rq = map (batch_result env (registry p)) g"
      and gr: "registry (snd rq) = registry (ui_events (during env (i div 3)) p)"
      unfolding rq_def by (rule batch_group)+
    have div_same: "a div 3 = i div 3" if "i \<le> a" "a < i + 3" for a
      using that "1.prems" by (elim dvdE) auto
    have div_less: "i div 3 < a div 3" if "i + 3 \<le> a" for a
      using that "1.prems" by (elim dvdE) auto
    have reg_later: "registry_at env (snd rq) (Suc (i div 3)) (a div 3)
        = registry_at env p (i div 3) (a div 3)" if "i + 3 \<le> a" for a
      by (rule registry_at_step [OF div_less [OF that] gr])
    define m where "m = min (i + 3) (length items)"
    have g_nth: "g = map ((!) items) [i..<m]"
      unfolding g_def m_def by (rule take_drop_nth)
    have split: "[i..<length items] = [i..<m] @ [i + 3..<length items]"
    proof (cases "i + 3 \<le> length items")
      case True
      then have "m = i + 3" by (simp add: m_def)
      then show ?thesis using True upt_add_eq_append [of i "i + 3" "length items - (i + 3)"]
        by simp
    next
      case False
      then have "m = length items" by (simp add: m_def)
      then show ?thesis using False by simp
    qed
    have c1: "fst rq = map (\<lambda>a. batch_result env (registry_at env p (i div 3) (a div 3))
                                 (items ! a)) [i..<m]"
    proof -
      have "map (\<lambda>a. batch_result env (registry_at env p (i div 3) (a div 3)) (items ! a))
              [i..<m]
          = map (\<lambda>a. batch_result env (registry p) (items ! a)) [i..<m]"
      proof (rule map_cong [OF refl])
        fix a assume "a \<in> set [i..<m]"
        then have "i \<le> a" "a < i + 3" by (auto simp: m_def)
        then have "a div 3 = i div 3" by (rule div_same)
        then show "batch_result env (registry_at env p (i div 3) (a div 3)) (items ! a)
            = batch_result env (registry p) (items ! a)"
          by simp
      qed
      then show ?thesis by (simp add: gres g_nth comp_def)
    qed
    have c2: "map (\<lambda>a. batch_result env (registry_at env (snd rq) (Suc (i div 3)) (a div 3))
                        (items ! a)) [i + 3..<length items]
        = map (\<lambda>a. batch_result env (registry_at env p (i div 3) (a div 3))
                        (items ! a)) [i + 3..<length items]"
    proof (rule map_cong [OF refl])
      fix a assume "a \<in> set [i + 3..<length items]"
      then have "i + 3 \<le> a" by simp
      then show "batch_result env (registry_at env (snd rq) (Suc (i div 3)) (a div 3)) (items ! a)
          = batch_result env (registry_at env p (i div 3) (a div 3)) (items ! a)"
        by (simp only: reg_later)
    qed
    have "(i + 3) div 3 = Suc (i div 3)" by simp
    then show ?thesis
      unfolding eq ih by (simp only: c2) (simp add: c1 split)
  qed
qed

lemma batch_loop_effect:
  assumes "distinct items" "3 dvd i"
  shows "(\<forall>a. i \<le> a \<and> a < length items \<longrightarrow>
            view (snd (batch_loop env items i results p)) (items ! a)
              = batch_view env (registry_at env p (i div 3) (a div 3)) (items ! a)
            \<and> (Fetch (items ! a) \<in> set (calls (snd (batch_loop env items i results p)))
                \<longleftrightarrow> Fetch (items ! a) \<in> set (calls p)
                    \<or> fst (registry_at env p (i div 3) (a div 3)) (items ! a) \<noteq> None))
    \<and> (\<forall>y. y \<notin> set (drop i items) \<longrightarrow>
            view (snd (batch_loop env items i results p)) y = view p y
            \<and> (Fetch y \<in> set (calls (snd (batch_loop env items i results p)))
                \<longleftrightarrow> Fetch y \<in> set (calls p)))
    \<and> shown (snd (batch_loop env items i results p)) = shown p"
  using assms
proof (induction env items i results p rule: batch_loop.induct)
  case (1 env items i results p)
  show ?case
  proof (cases "i < length items")
    case False
    then have "batch_loop env items i results p = (results, p)"
      by (simp add: batch_loop.simps [of env items i results p])
    then show ?thesis using False by auto
  next
    case True
    define g where "g = take 3 (drop i items)"
    define rq where "rq = run_group batch_start processFile_resume env (during env (i div 3)) g p"
    define p1 where "p1 = snd rq"
    define q where "q = snd (batch_loop env items (i + 3) (results @ fst rq) p1)"
    have eq: "snd (batch_loop env items i results p) = q"
      using batch_loop_step [OF True, of env results p] by (simp add: q_def p1_def rq_def g_def)
    have g1: "(fst rq, p1) = run_group batch_start processFile_resume env
        (during env (i div maxConcurrent)) (take maxConcurrent (drop i items)) p"
      by (simp add: rq_def g_def p1_def maxConcurrent_def)
    have d3: "3 dvd i + maxConcurrent" using "1.prems"(2) by (simp add: maxConcurrent_def)
    note ih = "1.IH" [OF True g1 "1.prems"(1) d3, unfolded maxConcurrent_def, folded q_def]
    have ihA: "view q (items ! a)
          = batch_view env (registry_at env p1 ((i + 3) div 3) (a div 3)) (items ! a)"
        "Fetch (items ! a) \<in> set (calls q)
          \<longleftrightarrow> Fetch (items ! a) \<in> set (calls p1)
              \<or> fst (registry_at env p1 ((i + 3) div 3) (a div 3)) (items ! a) \<noteq> None"
      if "i + 3 \<le> a" "a < length items" for a
      using ih that by blast+
    have ihB: "view q y = view p1 y" "Fetch y \<in> set (calls q) \<longleftrightarrow> Fetch y \<in> set (calls p1)"
      if "y \<notin> set (drop (i + 3) items)" for y
      using ih that by blast+
    have ihC: "shown q = shown p1" using ih by blast
    have gv: "\<And>y. view p1 y = (if y \<in> set g then batch_view env (registry p) y else view p y)"
      and gr: "registry p1 = registry (ui_events (during env (i div 3)) p)"
      and gs: "shown p1 = shown p"
      and gf: "\<And>y. Fetch y \<in> set (calls p1)
          \<longleftrightarrow> Fetch y \<in> set (calls p) \<or> y \<in> set g \<and> fst (registry p) y \<noteq> None"
      unfolding p1_def rq_def by (rule batch_group)+
    have div_same: "a div 3 = i div 3" if "i \<le> a" "a < i + 3" for a
      using that "1.prems"(2) by (elim dvdE) auto
    have div_next: "(i + 3) div 3 = Suc (i div 3)" by simp
    have div_less: "i div 3 < a div 3" if "i + 3 \<le> a" for a
      using that "1.prems"(2) by (elim dvdE) auto
    have reg_later: "registry_at env p1 (Suc (i div 3)) (a div 3)
        = registry_at env p (i div 3) (a div 3)" if "i + 3 \<le> a" for a
      by (rule registry_at_step [OF div_less [OF that] gr])
    have in_g: "items ! a \<in> set g \<longleftrightarrow> i \<le> a \<and> a < i + 3" if "a < length items" for a
      unfolding g_def by (rule distinct_nth_in_group [OF "1.prems"(1) that])
    have in_rest: "items ! a \<in> set (drop (i + 3) items) \<longleftrightarrow> i + 3 \<le> a"
      if "a < length items" for a
      by (rule distinct_nth_in_drop [OF "1.prems"(1) that])
    have A: "view q (items ! a)
              = batch_view env (registry_at env p (i div 3) (a div 3)) (items ! a)
            \<and> (Fetch (items ! a) \<in> set (calls q)
                \<longleftrightarrow> Fetch (items ! a) \<in> set (calls p)
                    \<or> fst (registry_at env p (i div 3) (a div 3)) (items ! a) \<noteq> None)"
      if a: "i \<le> a" "a < length items" for a
    proof (cases "a < i + 3")
      case True
      then have "items ! a \<notin> set (drop (i + 3) items)" using in_rest [OF a(2)] by simp
      then have "view q (items ! a) = view p1 (items ! a)"
        "Fetch (items ! a) \<in> set (calls q) \<longleftrightarrow> Fetch (items ! a) \<in> set (calls p1)"
        by (rule ihB)+
      moreover have "items ! a \<in> set g" using in_g [OF a(2)] a(1) True by simp
      ultimately show ?thesis
        using gv [of "items ! a"] gf [of "items ! a"] div_same [OF a(1) True] by simp
    next
      case False
      then have b: "i + 3 \<le> a" by simp
      then have "items ! a \<notin> set g" using in_g [OF a(2)] by simp
      then have "Fetch (items ! a) \<in> set (calls p1) \<longleftrightarrow> Fetch (items ! a) \<in> set (calls p)"
        using gf [of "items ! a"] by simp
      then show ?thesis
        using ihA [OF b a(2)] reg_later [OF b] by (simp add: div_next)
    qed
    have B: "view q y = view p y \<and> (Fetch y \<in> set (calls q) \<longleftrightarrow> Fetch y \<in> set (calls p))"
      if "y \<notin> set (drop i items)" for y
    proof -
      have "y \<notin> set g" "y \<notin> set (drop (i + 3) items)"
        using that set_drop_split [of i items 3] by (auto simp: g_def)
      then show ?thesis using ihB [of y] gv [of y] gf [of y] by simp
    qed
    have C: "shown q = shown p" using ihC gs by simp
    show ?thesis
      unfolding eq using A B C by blast
  qed
qed

section \<open>The handlers as a whole\<close>

lemma registry_at_cong:
  "registry p = registry q \<Longrightarrow> registry_at env p g h = registry_at env q g h"
  unfolding registry_at_def by (rule registry_ui_events_cong)

lemma registry_at_before:
  "registry_at env p 0 h = registry (ui_events (events_before env h) p)"
  by (simp add: registry_at_def events_before_def)

lemma view_truncate [simp]: "view (page.truncate q) = view q"
  by (simp add: view_def page.defs fun_eq_iff)

lemma shown_truncate [simp]: "shown (page.truncate q) = shown q"
  by (simp add: page.defs)

lemma processBtn_disabled_truncate [simp]:
  "processBtn_disabled (page.truncate q) = processBtn_disabled q"
  by (simp add: page.defs)

lemma view_extend [simp]: "view (page.extend p e) = view p"
  by (simp add: view_def page.defs fun_eq_iff)

lemma shown_extend [simp]: "shown (page.extend p e) = shown p"
  by (simp add: page.defs)

lemma registry_extend [simp]: "registry (page.extend p e) = registry p"
  by (simp add: registry_def page.defs)

lemma successCount_extend [simp]:
  "successCount (page.extend p (process_run.fields n)) = n"
  by (simp add: page.defs process_run.defs)

lemma view_showError [simp]: "view (showError m c p) = view p"
  by (simp add: view_def showError_def fun_eq_iff)

lemma distinct_selectedItems: "distinct (fileList p) \<Longrightarrow> distinct (selectedItems p)"
  by (simp add: selectedItems_def)

lemma processBtn_click_effect:
  fixes env :: env and p :: page
  assumes "distinct (fileList p)" "selectedItems p \<noteq> []"
  defines "sel \<equiv> selectedItems p"
    and "q \<equiv> processBtn_click env p"
    and "n \<equiv> length (filter (\<lambda>a. process_success env
                 (registry (ui_events (events_before env (a div 3)) p)) (selectedItems p ! a))
               [0..<length (selectedItems p)])"
  shows "\<And>a. a < length sel \<Longrightarrow>
          view q (sel ! a)
            = process_view env (registry (ui_events (events_before env (a div 3)) p)) (sel ! a)"
    and "\<And>a. a < length sel \<Longrightarrow>
          Fetch (sel ! a) \<in> set (calls q)
            \<longleftrightarrow> Fetch (sel ! a) \<in> set (calls p)
                \<or> getFileFromItem (sel ! a) (ui_events (events_before env (a div 3)) p) \<noteq> None"
    and "\<And>y. y \<notin> set sel \<Longrightarrow> view q y = view p y"
    and "shown q = (if n > 0 then (shown p)(ProcessingOptions \<mapsto> success_message n)
                    else shown p)"
    and "\<not> processBtn_disabled q"
proof -
  define p0 where "p0 = page.extend (p\<lparr>processBtn_disabled := True\<rparr>) (process_run.fields 0)"
  define p1 where "p1 = snd (process_loop env sel 0 p0)"
  have r0: "registry p0 = registry p" by (simp add: p0_def registry_def page.defs)
  have v0: "view p0 = view p" by (simp add: p0_def view_def fun_eq_iff page.defs)
  have s0: "shown p0 = shown p" by (simp add: p0_def)
  have c0: "calls p0 = calls p" by (simp add: p0_def)
  have n0: "successCount p0 = 0" by (simp add: p0_def)
  have ra: "registry_at env p0 (0 div 3) h = registry (ui_events (events_before env h) p)" for h
    using registry_at_cong [OF r0, of env 0 h] by (simp add: registry_at_before)
  have fst1: "fst (process_loop env sel 0 p0) = Inr ()"
    using process_loop_calls [of env sel 0 p0] by simp
  then have loop: "process_loop env sel 0 p0 = (Inr (), p1)"
    by (simp add: p1_def prod_eq_iff)
  have d: "distinct sel" unfolding sel_def by (rule distinct_selectedItems [OF assms(1)])
  note eff = process_loop_effect [OF d dvd_0_right, of env p0, folded p1_def, unfolded ra]
  have n1: "successCount p1 = n" using eff by (simp add: n0 n_def sel_def)
  have q: "q = page.truncate
      ((if n > 0 then showError (success_message n) ProcessingOptions p1 else p1)
         \<lparr>processBtn_disabled := False\<rparr>)"
    using assms(2) loop n1
    by (simp add: q_def processBtn_click_def processBtn_try_def processBtn_finish_def
        sel_def [symmetric] p0_def [symmetric] Let_def success_message_def)
  have vq: "view q = view p1" by (simp add: q view_def fun_eq_iff page.defs showError_def)
  have cq: "calls q = calls p1" by (simp add: q)
  show "view q (sel ! a)
      = process_view env (registry (ui_events (events_before env (a div 3)) p)) (sel ! a)"
    if "a < length sel" for a
    using eff that by (simp add: vq)
  show "Fetch (sel ! a) \<in> set (calls q)
      \<longleftrightarrow> Fetch (sel ! a) \<in> set (calls p)
          \<or> getFileFromItem (sel ! a) (ui_events (events_before env (a div 3)) p) \<noteq> None"
    if "a < length sel" for a
    using eff that by (simp add: cq c0 getFileFromItem_registry)
  show "view q y = view p y" if "y \<notin> set sel" for y
    using eff that by (simp add: vq v0)
  have "shown p1 = shown p" using eff by (simp add: s0)
  then show "shown q = (if n > 0 then (shown p)(ProcessingOptions \<mapsto> success_message n)
                    else shown p)"
    by (simp add: q showError_def)
  show "\<not> processBtn_disabled q" by (simp add: q)
qed

lemma batch_loop_preserves:
  assumes "\<And>x q. obs (snd (batch_start x q)) = obs q"
    and "\<And>x r q. obs (snd (processFile_resume x r q)) = obs q"
    and "\<And>x q. obs (settle x q) = obs q"
    and "\<And>es q. obs (ui_events es q) = obs q"
  shows "obs (snd (batch_loop env items i results p)) = obs p"
proof (induction env items i results p rule: batch_loop.induct)
  case (1 env items i results p)
  show ?case
  proof (cases "i < length items")
    case False
    then show ?thesis by (simp add: batch_loop.simps [of env items i results p])
  next
    case True
    define rq where "rq = run_group batch_start processFile_resume env
        (during env (i div maxConcurrent)) (take maxConcurrent (drop i items)) p"
    have eq: "batch_loop env items i results p
        = batch_loop env items (i + maxConcurrent) (results @ fst rq) (snd rq)"
      using True by (simp add: batch_loop.simps [of env items i results p] rq_def
          split: prod.splits)
    have "obs (snd rq) = obs p"
      unfolding rq_def by (rule run_group_preserves) (simp_all add: assms)
    moreover have "obs (snd (batch_loop env items (i + maxConcurrent) (results @ fst rq) (snd rq)))
        = obs (snd rq)"
      by (rule "1.IH" [OF True]) (simp add: rq_def)
    ultimately show ?thesis by (simp add: eq)
  qed
qed

lemma outputText_updateFileStatus [simp]:
  "outputText (updateFileStatus x st pr p) = outputText p"
  by (simp add: updateFileStatus_def Let_def split: option.splits)

lemma outputText_settle [simp]: "outputText (settle x p) = outputText p"
  by (simp add: settle_def)

lemma outputText_ui_event [simp]: "outputText (apply_ui_event e p) = outputText p"
  by (cases e) simp_all

lemma outputText_ui_events [simp]: "outputText (ui_events es p) = outputText p"
  unfolding ui_events_def by (induction es arbitrary: p) simp_all

lemma outputText_batch_start [simp]: "outputText (snd (batch_start x q)) = outputText q"
  by (simp add: batch_start_eq fetch_def split: option.splits)

lemma outputText_processFile_resume [simp]:
  "outputText (snd (processFile_resume x r q)) = outputText q"
  by (cases r rule: process_data_cases)
    (simp_all add: processFile_resume_Inr processFile_resume_Inl)

lemma outputText_batch_loop: "outputText (snd (batch_loop env items i results p)) = outputText p"
  by (rule batch_loop_preserves) simp_all

lemma summarizeBtn_click_batch_effect:
  fixes env :: env and p :: page
  assumes "targetLanguage p \<noteq> []" "activeTab p \<noteq> ''text''" "processInBatch p"
    "fileList p \<noteq> []"
  defines "q \<equiv> summarizeBtn_click env p"
  shows "fst (summarize_try env p)
      = (if successful (batch_results env p) = []
         then Inl (Error ''No files were successfully processed'') else Inr ())"
    and "shown q
      = (if successful (batch_results env p) = []
         then (shown p)(ErrorContainer \<mapsto> ''No files were successfully processed'')
         else shown p)"
    and "outputText q
      = (if successful (batch_results env p) = [] then []
         else combinedSummary (blocks (successful (batch_results env p))))"
    and "\<And>a. distinct (fileList p) \<Longrightarrow> a < length (fileList p) \<Longrightarrow>
          view q (fileList p ! a)
            = batch_view env (registry (ui_events (events_before env (a div 3)) p))
                (fileList p ! a)"
    and "\<And>a. distinct (fileList p) \<Longrightarrow> a < length (fileList p) \<Longrightarrow>
          Fetch (fileList p ! a) \<in> set (calls q)
            \<longleftrightarrow> Fetch (fileList p ! a) \<in> set (calls p)
                \<or> fileMap (ui_events (events_before env (a div 3)) p) (fileList p ! a) \<noteq> None"
    and "\<And>y. distinct (fileList p) \<Longrightarrow> y \<notin> set (fileList p) \<Longrightarrow> view q y = view p y"
proof -
  define p0 where
    "p0 = p\<lparr>loading_hidden := False, summarizeBtn_disabled := True, outputText := []\<rparr>"
  define p1 where "p1 = snd (batch_loop env (fileList p) 0 [] p0)"
  have r0: "registry p0 = registry p" by (simp add: p0_def registry_def)
  have v0: "view p0 = view p" by (simp add: p0_def view_def fun_eq_iff)
  have ra: "registry_at env p0 (0 div 3) h = registry (ui_events (events_before env h) p)" for h
    using registry_at_cong [OF r0, of env 0 h] by (simp add: registry_at_before)
  have ra0: "registry_at env p0 0 h = registry (ui_events (events_before env h) p)" for h
    using ra [of h] by simp
  have res: "fst (batch_loop env (fileList p) 0 [] p0) = batch_results env p"
    using batch_loop_results [OF dvd_0_right, of env "fileList p" "[]" p0]
    by (simp add: ra0 batch_results_def)
  then have loop: "batch_loop env (fileList p) 0 [] p0 = (batch_results env p, p1)"
    by (simp add: p1_def prod_eq_iff)
  have o1: "outputText p1 = []"
    unfolding p1_def by (simp add: outputText_batch_loop p0_def)
  have tr_eq: "summarize_try env p
      = (if successful (batch_results env p) = []
         then (Inl (Error ''No files were successfully processed''), p1)
         else (Inr (), p1\<lparr>outputText :=
                 combinedSummary (blocks (successful (batch_results env p)))\<rparr>))"
    using assms(2-4) loop [unfolded p0_def]
    by (simp add: summarize_try_def summarize_batch_def Let_def blocks_def)
  show "fst (summarize_try env p)
      = (if successful (batch_results env p) = []
         then Inl (Error ''No files were successfully processed'') else Inr ())"
    by (simp add: tr_eq)
  have q: "q = summarize_finish (summarize_try env p)"
    using assms(1,2) by (simp add: q_def summarizeBtn_click_def)
  have s1: "shown p1 = shown p"
    using batch_loop_effect [of "[]" 0 env "[]" p0] 
      batch_loop_preserves [of shown env "fileList p" 0 "[]" p0]
    by (simp add: p1_def p0_def batch_start_facts processFile_resume_facts)
  show "shown q
      = (if successful (batch_results env p) = []
         then (shown p)(ErrorContainer \<mapsto> ''No files were successfully processed'')
         else shown p)"
    by (simp add: q tr_eq summarize_finish_def showError_def s1)
  show "outputText q
      = (if successful (batch_results env p) = [] then []
         else combinedSummary (blocks (successful (batch_results env p))))"
    by (simp add: q tr_eq summarize_finish_def showError_def o1)
  have vq: "view q = view p1"
    by (simp add: q tr_eq summarize_finish_def showError_def view_def fun_eq_iff)
  have cq: "calls q = calls p1"
    by (simp add: q tr_eq summarize_finish_def showError_def)
  have c0: "calls p0 = calls p" by (simp add: p0_def)
  have f0: "fst (registry r) = fileMap r" for r :: page by (simp add: registry_def)
  {
    assume d: "distinct (fileList p)"
    note eff = batch_loop_effect [OF d dvd_0_right, of env "[]" p0, folded p1_def, unfolded ra]
    show "view q (fileList p ! a)
        = batch_view env (registry (ui_events (events_before env (a div 3)) p)) (fileList p ! a)"
      if "a < length (fileList p)" for a
      using eff that by (simp add: vq)
    show "Fetch (fileList p ! a) \<in> set (calls q)
        \<longleftrightarrow> Fetch (fileList p ! a) \<in> set (calls p)
            \<or> fileMap (ui_events (events_before env (a div 3)) p) (fileList p ! a) \<noteq> None"
      if "a < length (fileList p)" for a
      using eff that by (simp add: cq c0 f0)
    show "view q y = view p y" if "y \<notin> set (fileList p)" for y
      using eff that by (simp add: vq v0)
  }
qed

section \<open>Groups of three\<close>

lemma grouped_Nil_runs: "grouped n [] tr \<Longrightarrow> fetch_runs 0 tr = []"
  using grouped.simps [of n "[]" tr] by simp

lemma processBtn_click_runs:
  fixes env :: env and p :: page
  assumes c0: "calls p = []" and d: "distinct (fileList p)"
    and f: "\<forall>a < length (selectedItems p).
              getFileFromItem (selectedItems p ! a)
                (ui_events (events_before env (a div 3)) p) \<noteq> None"
  shows "fetch_runs 0 (calls (processBtn_click env p))
      = group_sizes 3 (length (selectedItems p))"
proof (cases "selectedItems p = []")
  case True
  then show ?thesis using c0 by (simp add: processBtn_click_def)
next
  case False
  have a: "grouped 3 (selectedItems p) (calls (processBtn_click env p))"
    using processBtn_click_calls [of env p] c0 by auto
  have all: "\<forall>x \<in> set (selectedItems p). Fetch x \<in> set (calls (processBtn_click env p))"
  proof
    fix x assume "x \<in> set (selectedItems p)"
    then obtain a where a: "a < length (selectedItems p)" and x: "x = selectedItems p ! a"
      by (metis in_set_conv_nth)
    have "getFileFromItem (selectedItems p ! a)
        (ui_events (events_before env (a div 3)) p) \<noteq> None"
      using f a by blast
    then show "Fetch x \<in> set (calls (processBtn_click env p))"
      unfolding x processBtn_click_effect(2) [OF d False a, where env = env] by (rule disjI2)
  qed
  show ?thesis
    by (rule grouped_fetch_runs [OF a _ distinct_selectedItems [OF d] all]) simp
qed


lemma summarizeBtn_click_runs:
  fixes env :: env and p :: page
  assumes c0: "calls p = []"
    and h: "targetLanguage p \<noteq> []" "activeTab p \<noteq> ''text''" "processInBatch p"
    and d: "distinct (fileList p)"
    and f: "\<forall>a < length (fileList p).
              fileMap (ui_events (events_before env (a div 3)) p) (fileList p ! a) \<noteq> None"
  shows "fetch_runs 0 (calls (summarizeBtn_click env p))
      = group_sizes 3 (length (fileList p))"
proof -
  have b: "grouped 3 (fileList p) (calls (summarizeBtn_click env p))"
    using summarizeBtn_click_batch_calls [OF h, of env] c0 by auto
  show ?thesis
  proof (cases "fileList p = []")
    case True
    then show ?thesis using b grouped_Nil_runs by simp
  next
    case False
    have all: "\<forall>x \<in> set (fileList p). Fetch x \<in> set (calls (summarizeBtn_click env p))"
    proof
      fix x assume "x \<in> set (fileList p)"
      then obtain a where a: "a < length (fileList p)" and x: "x = fileList p ! a"
        by (metis in_set_conv_nth)
      have "fileMap (ui_events (events_before env (a div 3)) p) (fileList p ! a) \<noteq> None"
        using f a by blast
      then show "Fetch x \<in> set (calls (summarizeBtn_click env p))"
        unfolding x summarizeBtn_click_batch_effect(5) [OF h False d a, where env = env]
        by (rule disjI2)
    qed
    show ?thesis
      by (rule grouped_fetch_runs [OF b _ d all]) simp
  qed
qed

text \<open>
  Claim C1.  Start with an empty log.  The log of the process button is grouped by three
  over the selected items, and the log of the summarize button in batch mode is grouped by
  three over the file items: the items are taken three at a time in their order, the first
  halves of a group's callbacks all run (making the remote call of every item that has a
  payload) before any call of the group settles, and no event of a later group comes before
  the last settling of an earlier one.  After every prefix of the log at most three remote
  calls are in flight.  When the items are distinct and each has a payload when its group
  starts, the calls come in rows of three, and a last shorter row for the items that are
  left: 3, 3, 1 for seven items.
\<close>

theorem bounded_groups:
  assumes "calls p = []"
  shows "grouped 3 (selectedItems p) (calls (processBtn_click env p))
    \<and> (\<forall>k. length (in_flight (take k (calls (processBtn_click env p)))) \<le> 3)
    \<and> (distinct (fileList p)
        \<and> (\<forall>a < length (selectedItems p).
              getFileFromItem (selectedItems p ! a)
                (ui_events (events_before env (a div 3)) p) \<noteq> None) \<longrightarrow>
         fetch_runs 0 (calls (processBtn_click env p))
           = group_sizes 3 (length (selectedItems p)))
    \<and> (targetLanguage p \<noteq> [] \<and> activeTab p \<noteq> ''text'' \<and> processInBatch p \<longrightarrow>
         grouped 3 (fileList p) (calls (summarizeBtn_click env p))
         \<and> (\<forall>k. length (in_flight (take k (calls (summarizeBtn_click env p)))) \<le> 3)
         \<and> (distinct (fileList p)
             \<and> (\<forall>a < length (fileList p).
                   fileMap (ui_events (events_before env (a div 3)) p) (fileList p ! a)
                     \<noteq> None) \<longrightarrow>
              fetch_runs 0 (calls (summarizeBtn_click env p))
                = group_sizes 3 (length (fileList p))))"
proof -
  have a: "grouped 3 (selectedItems p) (calls (processBtn_click env p))"
    using processBtn_click_calls [of env p] assms by auto
  have b: "grouped 3 (fileList p) (calls (summarizeBtn_click env p))"
    if "targetLanguage p \<noteq> []" "activeTab p \<noteq> ''text''" "processInBatch p"
    using summarizeBtn_click_batch_calls [OF that, of env] assms by auto
  have a': "\<forall>k. length (in_flight (take k (calls (processBtn_click env p)))) \<le> 3"
    using a grouped_flight [of 3 "selectedItems p" "calls (processBtn_click env p)"]
    unfolding in_flight_def by blast
  have b': "\<forall>k. length (in_flight (take k (calls (summarizeBtn_click env p)))) \<le> 3"
    if "targetLanguage p \<noteq> []" "activeTab p \<noteq> ''text''" "processInBatch p"
    using b [OF that] grouped_flight [of 3 "fileList p" "calls (summarizeBtn_click env p)"]
    unfolding in_flight_def by blast
  show ?thesis
  proof (intro conjI impI)
    show "grouped 3 (selectedItems p) (calls (processBtn_click env p))" by (rule a)
    show "\<forall>k. length (in_flight (take k (calls (processBtn_click env p)))) \<le> 3" by (rule a')
    show "fetch_runs 0 (calls (processBtn_click env p))
        = group_sizes 3 (length (selectedItems p))"
      if "distinct (fileList p)
        \<and> (\<forall>a < length (selectedItems p).
              getFileFromItem (selectedItems p ! a)
                (ui_events (events_before env (a div 3)) p) \<noteq> None)"
      using that processBtn_click_runs [OF assms, of env] by blast
  next
    assume h: "targetLanguage p \<noteq> [] \<and> activeTab p \<noteq> ''text'' \<and> processInBatch p"
    then have h': "targetLanguage p \<noteq> []" "activeTab p \<noteq> ''text''" "processInBatch p"
      by blast+
    show "grouped 3 (fileList p) (calls (summarizeBtn_click env p))" by (rule b [OF h'])
    show "\<forall>k. length (in_flight (take k (calls (summarizeBtn_click env p)))) \<le> 3"
      by (rule b' [OF h'])
    show "fetch_runs 0 (calls (summarizeBtn_click env p))
        = group_sizes 3 (length (fileList p))"
      if "distinct (fileList p)
             \<and> (\<forall>a < length (fileList p).
                   fileMap (ui_events (events_before env (a div 3)) p) (fileList p ! a)
                     \<noteq> None)"
      using that summarizeBtn_click_runs [OF assms h', of env] by blast
  qed
qed

section \<open>Failures stay with their item\<close>









lemma successful_member: "d \<in> set (successful rs) \<longleftrightarrow> Inr d \<in> set rs"
  by (induction rs rule: successful.induct) auto

lemma batch_results_nth:
  "a < length (fileList p) \<Longrightarrow>
   batch_results env p ! a
   = (case fileMap (ui_events (events_before env (a div 3)) p) (fileList p ! a) of
        None \<Rightarrow> Inl (Error ''No file found'')
      | Some _ \<Rightarrow> process_data (response env (fileList p ! a)))"
  by (simp add: batch_results_def batch_result_def registry_def split: option.splits)

lemma length_batch_results [simp]: "length (batch_results env p) = length (fileList p)"
  by (simp add: batch_results_def)




lemma successful_concat:
  "successful rs = concat (map (\<lambda>r. case r of Inr d \<Rightarrow> [d] | Inl _ \<Rightarrow> []) rs)"
  by (induction rs rule: successful.induct) simp_all









text \<open>
  Claim C10.  A run of the process button with a selected item ends with the button
  enabled, and so does every way through the \<^verbatim>\<open>catch\<close> and \<^verbatim>\<open>finally\<close> blocks, also
  the one for an exception.  A run of the summarize button that passes the two input
  checks ends with the loading indicator hidden and the button enabled, and so does every
  way through its \<^verbatim>\<open>catch\<close> and \<^verbatim>\<open>finally\<close> blocks.  A run that stops at an input
  check leaves the controls as they were.
\<close>

theorem controls_reenabled:
  "(selectedItems p \<noteq> [] \<longrightarrow> \<not> processBtn_disabled (processBtn_click env p))
   \<and> (selectedItems p = [] \<longrightarrow>
        processBtn_disabled (processBtn_click env p) = processBtn_disabled p)
   \<and> (\<forall>rp. \<not> processBtn_disabled (processBtn_finish rp))
   \<and> (targetLanguage p \<noteq> [] \<and> \<not> (activeTab p = ''text'' \<and> trim (inputText p) = []) \<longrightarrow>
        loading_hidden (summarizeBtn_click env p)
        \<and> \<not> summarizeBtn_disabled (summarizeBtn_click env p))
   \<and> (targetLanguage p = [] \<or> activeTab p = ''text'' \<and> trim (inputText p) = [] \<longrightarrow>
        loading_hidden (summarizeBtn_click env p) = loading_hidden p
        \<and> summarizeBtn_disabled (summarizeBtn_click env p) = summarizeBtn_disabled p)
   \<and> (\<forall>rp. loading_hidden (summarize_finish rp) \<and> \<not> summarizeBtn_disabled (summarize_finish rp))"
proof -
  have f: "\<not> processBtn_disabled (processBtn_finish rp)" for rp
    by (cases rp) (simp add: processBtn_finish_def Let_def page.defs)
  have g: "loading_hidden (summarize_finish rp) \<and> \<not> summarizeBtn_disabled (summarize_finish rp)"
    for rp
    by (cases rp) (simp add: summarize_finish_def Let_def)
  have a: "\<not> processBtn_disabled (processBtn_click env p)" if "selectedItems p \<noteq> []"
    using that f by (simp add: processBtn_click_def Let_def)
  have b: "processBtn_disabled (processBtn_click env p) = processBtn_disabled p"
    if "selectedItems p = []"
    using that by (simp add: processBtn_click_def showError_def)
  have c: "loading_hidden (summarizeBtn_click env p)
        \<and> \<not> summarizeBtn_disabled (summarizeBtn_click env p)"
    if "targetLanguage p \<noteq> []" "\<not> (activeTab p = ''text'' \<and> trim (inputText p) = [])"
    using that g by (auto simp: summarizeBtn_click_def)
  have d: "loading_hidden (summarizeBtn_click env p) = loading_hidden p
        \<and> summarizeBtn_disabled (summarizeBtn_click env p) = summarizeBtn_disabled p"
    if "targetLanguage p = [] \<or> activeTab p = ''text'' \<and> trim (inputText p) = []"
    using that by (auto simp: summarizeBtn_click_def showError_def)
  show ?thesis using a b c d f g by blast
qed

lemma page_batch_facts:
  "distinct (fileList (page_batch n))" "calls (page_batch n) = []"
  "targetLanguage (page_batch n) \<noteq> []" "activeTab (page_batch n) \<noteq> ''text''"
  "processInBatch (page_batch n)"
  by (simp_all add: page_batch_def page_with_def page0_def)

lemma page_with_facts:
  "distinct (fileList (page_with n))" "calls (page_with n) = []"
  "fileList (page_with n) = [1..<Suc n]"
  "selectedItems (page_with n) = [1..<Suc n]"
  "targetLanguage (page_with n) \<noteq> []" "activeTab (page_with n) \<noteq> ''text''"
  by (simp_all add: page_with_def page0_def selectedItems_def)


lemma events_before_env_ok: "events_before env_ok g = []"
  by (simp add: events_before_def env_ok_def)

lemma ui_events_Nil: "ui_events [] p = p"
  by (simp add: ui_events_def)

lemma page_with_found:
  "1 \<le> x \<Longrightarrow> x \<le> n \<Longrightarrow> getFileFromItem x (page_with n) \<noteq> None"
  "1 \<le> x \<Longrightarrow> x \<le> n \<Longrightarrow> fileMap (page_batch n) x \<noteq> None"
  by (simp_all add: getFileFromItem_def page_with_def page_batch_def page0_def)

theorem bounded_groups_witness:
  "calls (page_with 7) = []
   \<and> selectedItems (page_with 7) = [1, 2, 3, 4, 5, 6, 7]
   \<and> grouped 3 (selectedItems (page_with 7)) (calls (processBtn_click env_ok (page_with 7)))
   \<and> (\<forall>k. length (in_flight (take k (calls (processBtn_click env_ok (page_with 7))))) \<le> 3)
   \<and> distinct (fileList (page_with 7))
   \<and> fetch_runs 0 (calls (processBtn_click env_ok (page_with 7))) = [3, 3, 1]
   \<and> calls (page_batch 7) = []
   \<and> targetLanguage (page_batch 7) \<noteq> [] \<and> activeTab (page_batch 7) \<noteq> ''text''
   \<and> processInBatch (page_batch 7)
   \<and> fileList (page_batch 7) = [1, 2, 3, 4, 5, 6, 7]
   \<and> grouped 3 (fileList (page_batch 7)) (calls (summarizeBtn_click env_ok (page_batch 7)))
   \<and> (\<forall>k. length (in_flight (take k (calls (summarizeBtn_click env_ok (page_batch 7))))) \<le> 3)
   \<and> distinct (fileList (page_batch 7))
   \<and> fetch_runs 0 (calls (summarizeBtn_click env_ok (page_batch 7))) = [3, 3, 1]"
proof -
  have sel: "selectedItems (page_with 7) = [1, 2, 3, 4, 5, 6, 7]"
    "fileList (page_batch 7) = [1, 2, 3, 4, 5, 6, 7]"
    by code_simp+
  have len: "length (selectedItems (page_with 7)) = 7" "length (fileList (page_batch 7)) = 7"
    by (simp_all only: sel) simp_all
  have fl: "fileList (page_batch 7) = [1..<Suc 7]"
    unfolding page_batch_def using page_with_facts(3) [of 7] by (simp del: upt_Suc)
  have gs: "group_sizes 3 7 = [3, 3, 1]"
    by code_simp
  have f1: "\<forall>a < length (selectedItems (page_with 7)).
      getFileFromItem (selectedItems (page_with 7) ! a)
        (ui_events (events_before env_ok (a div 3)) (page_with 7)) \<noteq> None"
  proof (intro allI impI)
    fix a assume "a < length (selectedItems (page_with 7))"
    then have a: "a < 7" by (simp only: len)
    have "selectedItems (page_with 7) ! a = 1 + a"
      unfolding page_with_facts(4) using a by (simp only: nth_upt)
    then show "getFileFromItem (selectedItems (page_with 7) ! a)
        (ui_events (events_before env_ok (a div 3)) (page_with 7)) \<noteq> None"
      using page_with_found(1) [of "1 + a" 7] a
      by (simp add: events_before_env_ok ui_events_Nil)
  qed
  have f2: "\<forall>a < length (fileList (page_batch 7)).
      fileMap (ui_events (events_before env_ok (a div 3)) (page_batch 7))
        (fileList (page_batch 7) ! a) \<noteq> None"
  proof (intro allI impI)
    fix a assume "a < length (fileList (page_batch 7))"
    then have a: "a < 7" by (simp only: len)
    have "fileList (page_batch 7) ! a = 1 + a"
      unfolding fl using a by (simp only: nth_upt)
    then show "fileMap (ui_events (events_before env_ok (a div 3)) (page_batch 7))
        (fileList (page_batch 7) ! a) \<noteq> None"
      using page_with_found(2) [of "1 + a" 7] a
      by (simp add: events_before_env_ok ui_events_Nil)
  qed
  note T1 = bounded_groups [OF page_with_facts(2), of 7 env_ok]
  note T2 = bounded_groups [OF page_batch_facts(2), of 7 env_ok,
      THEN conjunct2, THEN conjunct2, THEN conjunct2, THEN mp,
      OF conjI [OF page_batch_facts(3) conjI [OF page_batch_facts(4,5)]]]
  note P1 = T1 [THEN conjunct1]
  note P2 = T1 [THEN conjunct2, THEN conjunct1]
  note P3 = T1 [THEN conjunct2, THEN conjunct2, THEN conjunct1, THEN mp,
      OF conjI [OF page_with_facts(1) f1], unfolded len gs]
  note S1 = T2 [THEN conjunct1]
  note S2 = T2 [THEN conjunct2, THEN conjunct1]
  note S3 = T2 [THEN conjunct2, THEN conjunct2, THEN mp,
      OF conjI [OF page_batch_facts(1) f2], unfolded len gs]
  show ?thesis
    by (intro conjI page_with_facts(1,2) page_batch_facts sel P1 P2 P3 S1 S2 S3)
qed





text \<open>
  Claim C6 at an item that only file-handler.js has taken in: \<^verbatim>\<open>getFileFromItem\<close> finds
  its file in \<^verbatim>\<open>window.__fileMap\<close>, and the process button and the summarize button
  without the batch option upload it; the summarize button in batch mode reads
  \<^verbatim>\<open>fileMap\<close> alone (line 591), reports \<^verbatim>\<open>No file found\<close> and makes no remote call.
\<close>

theorem batch_lookup_ignores_global:
  "getFileFromItem 1 page_fh = Some notes_txt
   \<and> status (summarizeBtn_click env_ok (page_fh\<lparr>processInBatch := True\<rparr>)) 1
       = ''Error: No file found''
   \<and> calls (summarizeBtn_click env_ok (page_fh\<lparr>processInBatch := True\<rparr>)) = [Settle 1]
   \<and> shown (summarizeBtn_click env_ok (page_fh\<lparr>processInBatch := True\<rparr>)) ErrorContainer
       = Some ''No files were successfully processed''
   \<and> status (summarizeBtn_click env_ok page_fh) 1 = ''Completed''
   \<and> calls (summarizeBtn_click env_ok page_fh) = [Fetch 1, Settle 1]
   \<and> status (processBtn_click env_ok page_fh) 1 = ''Completed''"
  by code_simp

theorem controls_reenabled_witness:
  "selectedItems (page_with 1) \<noteq> []
   \<and> \<not> processBtn_disabled (processBtn_click env_down (page_with 1))
   \<and> selectedItems page0 = []
   \<and> processBtn_disabled (processBtn_click env_down page0) = processBtn_disabled page0
   \<and> targetLanguage (page_with 1) \<noteq> []
   \<and> \<not> (activeTab (page_with 1) = ''text'' \<and> trim (inputText (page_with 1)) = [])
   \<and> loading_hidden (summarizeBtn_click env_down (page_with 1))
   \<and> \<not> summarizeBtn_disabled (summarizeBtn_click env_down (page_with 1))
   \<and> (targetLanguage page0 = [] \<or> activeTab page0 = ''text'' \<and> trim (inputText page0) = [])
   \<and> loading_hidden (summarizeBtn_click env_down page0) = loading_hidden page0
   \<and> summarizeBtn_disabled (summarizeBtn_click env_down page0) = summarizeBtn_disabled page0"
proof -
  have a: "selectedItems (page_with 1) \<noteq> []" "selectedItems page0 = []"
    "targetLanguage (page_with 1) \<noteq> []"
    "\<not> (activeTab (page_with 1) = ''text'' \<and> trim (inputText (page_with 1)) = [])"
    "targetLanguage page0 = [] \<or> activeTab page0 = ''text'' \<and> trim (inputText page0) = []"
    by code_simp+
  show ?thesis
    using controls_reenabled [of "page_with 1" env_down] controls_reenabled [of page0 env_down] a
    by blast
qed

end
